theory Spec2Isabelle
  imports Complex_Main "HOL-Library.Word"
begin

section \<open>Python primitives used by the test runner\<close>

text \<open>
  The runner (\<open>run.py\<close>) builds text with Python's string formatting, \<open>str.join\<close>,
  \<open>bytes.split\<close>, \<open>bin\<close> and \<open>int(s, 2)\<close>.  Each of them is modelled here as a total
  HOL function; where Python raises, the model returns \<open>Inl\<close> of the exception.
\<close>

datatype py_error = IndexError | ValueError | AssertionError

type_synonym byte = "8 word"

definition hexdigits :: string where
  "hexdigits = ''0123456789abcdef''"

definition hex_digit :: "nat \<Rightarrow> char" where
  "hex_digit d = hexdigits ! d"

text \<open>\<open>"%x" % n\<close> and \<open>f"{n:x}"\<close> for \<open>n \<ge> 0\<close>: lower-case hexadecimal, no padding.\<close>

fun hex_str :: "nat \<Rightarrow> string" where
  "hex_str n = (if n < 16 then [hex_digit n] else hex_str (n div 16) @ [hex_digit (n mod 16)])"

declare hex_str.simps [simp del]

text \<open>Zero padding on the left up to a minimal number of digits.\<close>

definition zero_pad :: "nat \<Rightarrow> string \<Rightarrow> string" where
  "zero_pad w s = replicate (w - length s) (CHR ''0'') @ s"

text \<open>\<open>f"{byte:02x}"\<close>.\<close>

definition fmt_02x :: "byte \<Rightarrow> string" where
  "fmt_02x b = zero_pad 2 (hex_str (unat b))"

text \<open>
  \<open>"%.Px" % n\<close> for \<open>n \<ge> 0\<close>: the precision \<open>P\<close> is a minimal number of digits; with
  \<open>P = 0\<close> Python still prints \<open>0\<close> as one digit.
\<close>

definition fmt_prec_x :: "nat \<Rightarrow> nat \<Rightarrow> string" where
  "fmt_prec_x p n = zero_pad p (hex_str n)"

text \<open>\<open>bin(n)[2:]\<close> for \<open>n \<ge> 0\<close>.\<close>

definition bin_digit :: "nat \<Rightarrow> char" where
  "bin_digit d = (if d = 0 then CHR ''0'' else CHR ''1'')"

fun bin_str :: "nat \<Rightarrow> string" where
  "bin_str n = (if n < 2 then [bin_digit n] else bin_str (n div 2) @ [bin_digit (n mod 2)])"

declare bin_str.simps [simp del]

text \<open>
  \<open>int(s, 2)\<close> on a string of binary digits; the empty string and any other character
  raise \<open>ValueError\<close>.  (Signs, blanks, underscores and a \<open>0b\<close> prefix, which Python also
  accepts, never reach this call: the argument is built from \<open>bin\<close> digits only.)
\<close>

definition bin_val :: "string \<Rightarrow> nat" where
  "bin_val s = foldl (\<lambda>a c. 2 * a + (if c = CHR ''1'' then 1 else 0)) 0 s"

definition binary_digit :: "char \<Rightarrow> bool" where
  "binary_digit c = (c = CHR ''0'' \<or> c = CHR ''1'')"

definition int_base2 :: "string \<Rightarrow> py_error + nat" where
  "int_base2 s =
     (if s = [] \<or> \<not> list_all binary_digit s then Inl ValueError
      else Inr (bin_val s))"

text \<open>\<open>sep.join(xs)\<close>.\<close>

fun join_str :: "string \<Rightarrow> string list \<Rightarrow> string" where
  "join_str sep [] = []"
| "join_str sep [x] = x"
| "join_str sep (x # y # ys) = x @ sep @ join_str sep (y # ys)"

text \<open>\<open>s.split(c)\<close> for a one-character separator: always at least one piece.\<close>

fun split_on :: "char \<Rightarrow> string \<Rightarrow> string list" where
  "split_on c [] = [[]]"
| "split_on c (x # xs) =
     (if x = c then [] # split_on c xs
      else (case split_on c xs of w # ws \<Rightarrow> (x # w) # ws | [] \<Rightarrow> [[x]]))"

section \<open>Reference file codec: \<open>generateAxiFileReaderTestFile\<close>\<close>

subsection \<open>Byte-aligned path (\<open>data_width >= 8\<close>)\<close>

text \<open>
  The \<open>for i, byte in enumerate(test_data)\<close> loop.  Its state is the window \<open>line\<close> (two hex
  digits per byte, newest first), the sticky \<open>tkeep\<close> and the \<open>lines\<close> emitted so far.
  \<open>length\<close> is the parameter of that name; \<open>tlast = i == length - 1\<close> is compared on
  integers, as Python does.
\<close>

fun byte_loop ::
  "nat \<Rightarrow> nat \<Rightarrow> nat \<Rightarrow> byte list \<Rightarrow> string list \<Rightarrow> nat \<Rightarrow> string list
     \<Rightarrow> string list \<times> nat \<times> string list" where
  "byte_loop data_width len i [] line tkeep lines = (line, tkeep, lines)"
| "byte_loop data_width len i (byte # rest) line tkeep lines =
     (let line = fmt_02x byte # line;
          tlast = (int i = int len - 1)
      in if (8 * (i + 1)) mod data_width = 0 then
           (let tkeep = (if tlast then 2 ^ length line - 1 else tkeep)
            in byte_loop data_width len (i + 1) rest [] tkeep
                 (lines @ [join_str '','' [concat line,
                                           fmt_prec_x (data_width div 8 div 4) tkeep,
                                           if tlast then ''1'' else ''0'']]))
         else byte_loop data_width len (i + 1) rest line tkeep lines)"

text \<open>The \<open>if line:\<close> block after the loop: the zero-padded final partial window.\<close>

definition byte_finish :: "nat \<Rightarrow> string list \<times> nat \<times> string list \<Rightarrow> string list" where
  "byte_finish data_width st =
     (case st of (line, tkeep, lines) \<Rightarrow>
        if line \<noteq> [] then
          (let tkeep = 2 ^ length line - 1;
               line = replicate (data_width div 8 - length line) ''00'' @ line
           in lines @ [join_str '','' [concat line,
                                      fmt_prec_x (data_width div 8 div 4) tkeep, ''1'']])
        else lines)"

definition byte_path :: "nat \<Rightarrow> nat \<Rightarrow> byte list \<Rightarrow> string list" where
  "byte_path data_width len test_data =
     byte_finish data_width (byte_loop data_width len 0 test_data [] 0 [])"

subsection \<open>Sub-byte path (\<open>data_width < 8\<close>)\<close>

text \<open>One byte's contribution: its bits, least significant first, filled up to 8.\<close>

definition little_endian_bits :: "byte \<Rightarrow> string" where
  "little_endian_bits b =
     (let little_endian_word = rev (bin_str (unat b))
      in little_endian_word @ replicate (8 - length little_endian_word) (CHR ''0''))"

definition flatten_bits :: "byte list \<Rightarrow> string" where
  "flatten_bits test_data = foldl (\<lambda>flattened b. flattened @ little_endian_bits b) [] test_data"

text \<open>
  The \<open>while flattened_bin_data:\<close> loop.  With \<open>data_width = 0\<close> the slice is empty and
  \<open>int("", 2)\<close> raises, so the loop is left through the exception.
\<close>

function slice_loop :: "nat \<Rightarrow> string \<Rightarrow> string list \<Rightarrow> py_error + string list" where
  "slice_loop data_width flattened lines =
     (if flattened = [] then Inr lines
      else (case int_base2 (take data_width flattened) of
              Inl e \<Rightarrow> Inl e
            | Inr word \<Rightarrow>
                (let flattened' = drop data_width flattened;
                     tlast = (flattened' = [])
                 in slice_loop data_width flattened'
                      (lines @ [join_str '','' [hex_str word, '''',
                                                if tlast then ''1'' else ''0'']]))))"
  by pat_completeness auto
termination
proof (relation "measure (\<lambda>(w, flattened, lines). length flattened)")
  show "wf (measure (\<lambda>(w, flattened, lines). length flattened))" by simp
next
  fix data_width :: nat and flattened :: string and lines :: "string list"
    and word :: nat and flattened' :: string and tlast :: bool
  assume ne: "flattened \<noteq> []"
    and ok: "int_base2 (take data_width flattened) = Inr word"
    and fl: "flattened' = drop data_width flattened"
  from ok have "take data_width flattened \<noteq> []"
    by (auto simp: int_base2_def split: if_splits)
  hence "0 < data_width" by (cases data_width) auto
  with ne fl
  show "((data_width, flattened',
           lines @ [join_str '','' [hex_str word, '''', if tlast then ''1'' else ''0'']]),
          (data_width, flattened, lines))
        \<in> measure (\<lambda>(w, flattened, lines). length flattened)"
    by simp
qed

declare slice_loop.simps [simp del]

definition sub_byte_path :: "nat \<Rightarrow> byte list \<Rightarrow> py_error + string list" where
  "sub_byte_path data_width test_data =
     (let flattened_bin_data = flatten_bits test_data
      in if length flattened_bin_data mod 8 \<noteq> 0 then Inl AssertionError
         else slice_loop data_width flattened_bin_data [])"

subsection \<open>The two files\<close>

text \<open>
  The lines of the reference file, for the parameters \<open>data_width\<close> and \<open>length\<close> and the
  tuple \<open>test_data\<close> (which has \<open>length\<close> elements whenever the function runs).
\<close>

definition reference_lines :: "nat \<Rightarrow> nat \<Rightarrow> byte list \<Rightarrow> py_error + string list" where
  "reference_lines data_width len test_data =
     (if data_width \<ge> 8 then Inr (byte_path data_width len test_data)
      else sub_byte_path data_width test_data)"

text \<open>What is written to the reference file: the joined lines and a final newline.\<close>

definition reference_text :: "string list \<Rightarrow> string" where
  "reference_text lines = join_str [CHR 0x0A] lines @ [CHR 0x0A]"

text \<open>\<open>struct.pack("<" + length * "B", *test_data)\<close>: one byte per value.\<close>

definition pack_bytes :: "byte list \<Rightarrow> string" where
  "pack_bytes test_data = map (\<lambda>b. char_of (unat b)) test_data"

text \<open>
  The codec on a given byte sequence: the contents of the raw file and of the reference
  file.  This is \<open>generateAxiFileReaderTestFile\<close> from the point where \<open>test_data\<close> is known.
\<close>

definition encode :: "nat \<Rightarrow> byte list \<Rightarrow> py_error + string list" where
  "encode data_width test_data = reference_lines data_width (length test_data) test_data"

text \<open>
  The whole function, on a file system (a map from paths to contents).  \<open>rand k\<close> is the
  value of the \<open>k\<close>-th call of \<open>random.randint(0, 255)\<close>.  Both files are opened for
  writing, which truncates them; the raw file is written first, so it is already there
  when the reference lines raise.
\<close>

type_synonym filesystem = "string \<rightharpoonup> string"

definition generateAxiFileReaderTestFile ::
  "string \<Rightarrow> string \<Rightarrow> nat \<Rightarrow> nat \<Rightarrow> (nat \<Rightarrow> byte) \<Rightarrow> filesystem
     \<Rightarrow> (py_error \<times> filesystem) + filesystem" where
  "generateAxiFileReaderTestFile test_file reference_file data_width len rand fs =
     (let test_data = map rand [0..<len];
          fs = fs(test_file \<mapsto> pack_bytes test_data)
      in case reference_lines data_width len test_data of
           Inl e \<Rightarrow> Inl (e, fs)
         | Inr lines \<Rightarrow> Inr (fs(reference_file \<mapsto> reference_text lines)))"

section \<open>Error-injection variants of the reference file: \<open>addAxiFileCompareTests\<close>\<close>

text \<open>
  \<open>ref_data\<close> is the reference file split at newlines.  An index beyond the end raises
  \<open>IndexError\<close>; a slice never does.
\<close>

definition tdata_single_error :: "string list \<Rightarrow> py_error + string list" where
  "tdata_single_error ref_data =
     (if length ref_data \<le> 8 then Inl IndexError
      else Inr (take 7 ref_data @ [ref_data ! 8] @ drop 8 ref_data))"

definition tdata_two_errors :: "string list \<Rightarrow> py_error + string list" where
  "tdata_two_errors ref_data =
     (if length ref_data \<le> 8 then Inl IndexError
      else if length ref_data \<le> 17 then Inl IndexError
      else Inr (take 7 ref_data @ [ref_data ! 8, ref_data ! 8] @ take (16 - 9) (drop 9 ref_data)
                @ [ref_data ! 17] @ drop 17 ref_data))"

text \<open>From the contents of the reference file to the contents of the derived file.\<close>

definition tdata_single_error_file :: "string \<Rightarrow> py_error + string" where
  "tdata_single_error_file content =
     (case tdata_single_error (split_on (CHR 0x0A) content) of
        Inl e \<Rightarrow> Inl e
      | Inr data \<Rightarrow> Inr (join_str [CHR 0x0A] data))"

definition tdata_two_errors_file :: "string \<Rightarrow> py_error + string" where
  "tdata_two_errors_file content =
     (case tdata_two_errors (split_on (CHR 0x0A) content) of
        Inl e \<Rightarrow> Inl e
      | Inr data \<Rightarrow> Inr (join_str [CHR 0x0A] data))"

section \<open>Test matrix builder\<close>

text \<open>
  A configuration is what \<open>add_config(name=..., generics=dict(...))\<close> receives.  The
  generics keep the order of the keyword arguments; their keys are distinct.
\<close>

datatype generic_value = IntV int | StrV string | BoolV bool

record test_configuration =
  name :: string
  generics :: "(string \<times> generic_value) list"

text \<open>\<open>str(n)\<close>, as used by the f-strings that build configuration names.\<close>

fun dec_str :: "nat \<Rightarrow> string" where
  "dec_str n = (if n < 10 then [hex_digit n] else dec_str (n div 10) @ [hex_digit (n mod 10)])"

declare dec_str.simps [simp del]

definition str_int :: "int \<Rightarrow> string" where
  "str_int i = (if i < 0 then CHR ''-'' # dec_str (nat (- i)) else dec_str (nat i))"

definition str_bool :: "bool \<Rightarrow> string" where
  "str_bool b = (if b then ''True'' else ''False'')"

text \<open>\<open>os.path.join\<close> of a directory and relative parts.\<close>

definition path_join :: "string \<Rightarrow> string \<Rightarrow> string" where
  "path_join a b = (if a = [] \<or> last a = CHR ''/'' then a @ b else a @ ''/'' @ b)"

definition startswith :: "string \<Rightarrow> string \<Rightarrow> bool" where
  "startswith s p = (take (length p) s = p)"

subsection \<open>One function per test bench\<close>

definition addAsyncFifoTests :: "int \<Rightarrow> test_configuration list" where
  "addAsyncFifoTests seed =
     (let clk_period_list = [4, 11]
      in [\<lparr>name = join_str '',''
                    [''wr_clk_period='' @ str_int wr_clk_period,
                     ''rd_clk_period='' @ str_int rd_clk_period,
                     ''wr_rand='' @ str_int wr_rand,
                     ''rd_rand='' @ str_int rd_rand],
           generics = [(''WR_CLK_PERIOD_NS'', IntV wr_clk_period),
                       (''RD_CLK_PERIOD_NS'', IntV rd_clk_period),
                       (''WR_EN_RANDOM'', IntV wr_rand),
                       (''RD_EN_RANDOM'', IntV rd_rand),
                       (''SEED'', IntV seed)]\<rparr>.
          wr_clk_period \<leftarrow> clk_period_list,
          rd_clk_period \<leftarrow> clk_period_list,
          (wr_rand, rd_rand) \<leftarrow> [(0, 0), (3, 0), (0, 3), (5, 5)]])"

definition addAxiStreamDelayTests :: "int \<Rightarrow> test_configuration list" where
  "addAxiStreamDelayTests seed =
     [\<lparr>name = ''delay='' @ str_int delay,
       generics = [(''DELAY_CYCLES'', IntV delay), (''SEED'', IntV seed)]\<rparr>.
      delay \<leftarrow> [1, 2, 8]]"

text \<open>
  The file reader and file compare benches also generate their files on the way (see
  \<open>generateAxiFileReaderTestFile\<close> and the error variants above); the configurations they
  register hold the paths only and do not depend on the files' contents.
\<close>

definition addAxiFileCompareTests :: "string \<Rightarrow> int \<Rightarrow> test_configuration list" where
  "addAxiFileCompareTests ROOT seed =
     (let out = path_join ROOT ''vunit_out''
      in [\<lparr>name = ''all'',
           generics =
             [(''input_file'', StrV (path_join out ''file_compare_input.bin'')),
              (''reference_file'', StrV (path_join out ''file_compare_reference_ok.bin'')),
              (''tdata_single_error_file'',
                 StrV (path_join out ''file_compare_reference_tdata_1_error.bin'')),
              (''tdata_two_errors_file'',
                 StrV (path_join out ''file_compare_reference_tdata_2_errors.bin'')),
              (''tlast_error_file'',
                 StrV (path_join out ''file_compare_reference_tlast_error.bin'')),
              (''seed'', IntV seed)]\<rparr>])"

definition addAxiFileReaderTests :: "string \<Rightarrow> int \<Rightarrow> test_configuration list" where
  "addAxiFileReaderTests ROOT seed =
     (let configs = [(1, [1, 2]), (8, [1, 8, 16, 24]), (16, [1, 2, 3, 4, 8, 9]),
                     (64, [16, 17, 18, 19])]
      in [(let all_configs =
                 [(let basename = ''file_reader_data_width_'' @ str_int data_width
                                    @ ''_length_'' @ str_int len @ ''_bytes'';
                       test_file = path_join (path_join ROOT ''vunit_out'')
                                     (basename @ ''_input.bin'');
                       reference_file = path_join (path_join ROOT ''vunit_out'')
                                          (basename @ ''_reference.bin'')
                   in join_str '','' [test_file, reference_file]).
                  len \<leftarrow> length_list]
           in \<lparr>name = ''multiple,data_width='' @ str_int data_width,
                generics = [(''DATA_WIDTH'', IntV data_width),
                            (''test_cfg'', StrV (join_str ''|'' all_configs)),
                            (''seed'', IntV seed)]\<rparr>).
          (data_width, length_list) \<leftarrow> configs])"

text \<open>
  The width converter iterates over Python sets, whose order is not specified:
  \<open>set_iter\<close> is the order in which a set hands out its elements.
\<close>

definition addAxiWidthConverterTests ::
  "(int set \<Rightarrow> int list) \<Rightarrow> int \<Rightarrow> test_configuration list" where
  "addAxiWidthConverterTests set_iter seed =
     \<lparr>name = ''same_widths'',
      generics = [(''INPUT_DATA_WIDTH'', IntV 32), (''OUTPUT_DATA_WIDTH'', IntV 32),
                  (''seed'', IntV seed)]\<rparr>
     # concat
         [concat
            [if output_data_width \<ge> input_data_width then []
             else [\<lparr>name = ''input_data_width='' @ str_int input_data_width @ '',''
                             @ ''output_data_width='' @ str_int output_data_width,
                    generics = [(''INPUT_DATA_WIDTH'', IntV input_data_width),
                                (''OUTPUT_DATA_WIDTH'', IntV output_data_width),
                                (''seed'', IntV seed)]\<rparr>].
             output_data_width \<leftarrow> set_iter ({1, 3, 8, 24, 32, 128} - {input_data_width})].
          input_data_width \<leftarrow> set_iter {1, 8, 24, 32, 128}]"

definition addAxiEmbiggenerTests :: "int \<Rightarrow> test_configuration list" where
  "addAxiEmbiggenerTests seed =
     (let input_data_width = 32; output_data_width = 128
      in [\<lparr>name = ''input_data_width='' @ str_int input_data_width @ '',''
                    @ ''output_data_width='' @ str_int output_data_width,
           generics = [(''INPUT_DATA_WIDTH'', IntV input_data_width),
                       (''OUTPUT_DATA_WIDTH'', IntV output_data_width),
                       (''seed'', IntV seed)]\<rparr>])"

text \<open>
  The arbiter configurations hang on the bench's tests; \<open>tests\<close> are the names that
  \<open>entity.get_tests()\<close> returns.  The result pairs each configuration with its test.
\<close>

definition arbiter_config :: "string \<Rightarrow> bool \<Rightarrow> int \<Rightarrow> test_configuration" where
  "arbiter_config mode register_inputs seed =
     \<lparr>name = ''mode='' @ mode @ '',register_inputs='' @ str_bool register_inputs,
      generics = [(''MODE'', StrV mode), (''REGISTER_INPUTS'', BoolV register_inputs),
                  (''seed'', IntV seed)]\<rparr>"

definition addAxiArbiterTests :: "string list \<Rightarrow> int \<Rightarrow> (string \<times> test_configuration) list" where
  "addAxiArbiterTests tests seed =
     concat
       [concat
          [(if startswith test ''test_round_robin''
            then [(test, arbiter_config ''ROUND_ROBIN'' register_inputs seed)] else [])
           @ (if startswith test ''test_interleaved''
              then [(test, arbiter_config ''INTERLEAVED'' register_inputs seed)] else [])
           @ (if startswith test ''test_absolute''
              then [(test, arbiter_config ''ABSOLUTE'' register_inputs seed)] else []).
           register_inputs \<leftarrow> [True, False]].
        test \<leftarrow> tests]"

subsection \<open>\<open>addTests\<close> and the seed\<close>

text \<open>
  Where a configuration is attached: a test bench of library \<open>tb\<close>, or one test of it.
\<close>

datatype target = Entity string | Test string string

definition addTests ::
  "string \<Rightarrow> (int set \<Rightarrow> int list) \<Rightarrow> string list \<Rightarrow> int \<Rightarrow> (target \<times> test_configuration) list" where
  "addTests ROOT set_iter arbiter_tests seed =
     map (Pair (Entity ''async_fifo_tb'')) (addAsyncFifoTests seed)
     @ map (Pair (Entity ''axi_stream_delay_tb'')) (addAxiStreamDelayTests seed)
     @ map (Pair (Entity ''axi_file_reader_tb'')) (addAxiFileReaderTests ROOT seed)
     @ map (Pair (Entity ''axi_file_compare_tb'')) (addAxiFileCompareTests ROOT seed)
     @ map (Pair (Entity ''axi_stream_width_converter_tb''))
         (addAxiWidthConverterTests set_iter seed)
     @ map (Pair (Entity ''axi_embiggener_tb'')) (addAxiEmbiggenerTests seed)
     @ map (\<lambda>(test, cfg). (Test ''axi_stream_arbiter_tb'' test, cfg))
         (addAxiArbiterTests arbiter_tests seed)
     @ [(Entity entity, \<lparr>name = ''with_seed'', generics = [(''seed'', IntV seed)]\<rparr>).
        entity \<leftarrow> [''axi_stream_frame_slicer_tb'', ''axi_stream_frame_padder_tb'',
                   ''axi_stream_frame_fifo_tb'', ''axi_stream_replicate_tb'']]"

text \<open>
  \<open>random.randint(a, b)\<close> may return any integer from \<open>a\<close> to \<open>b\<close>, both included: the
  model is the set of its possible results.
\<close>

definition randint :: "int \<Rightarrow> int \<Rightarrow> int set" where
  "randint a b = {a..b}"

text \<open>
  The seeds \<open>main\<close> may pass to \<open>addTests\<close>: the value of \<open>--seed\<close> (parsed with \<open>type=int\<close>,
  any integer) when it is given, else the default \<open>random.randint(-1 << 31, 1 << 31)\<close>.
\<close>

definition main_seed :: "int option \<Rightarrow> int set" where
  "main_seed supplied =
     (case supplied of
        Some s \<Rightarrow> {s}
      | None \<Rightarrow> randint (push_bit 31 (- 1)) (push_bit 31 1))"

text \<open>The value a configuration carries under a parameter name.\<close>

definition generic :: "test_configuration \<Rightarrow> string \<Rightarrow> generic_value option" where
  "generic cfg k = map_of (generics cfg) k"

section \<open>Reading the reference format back\<close>

text \<open>
  A line of the reference file is \<open>word,keep,last\<close>.  The functions below read a line the
  way a consumer of the format does; they are used to state what the codec emits.
\<close>

fun index_of :: "'a \<Rightarrow> 'a list \<Rightarrow> nat" where
  "index_of c [] = 0"
| "index_of c (x # xs) = (if x = c then 0 else Suc (index_of c xs))"

definition hex_val :: "char \<Rightarrow> nat" where
  "hex_val c = index_of c hexdigits"

definition hex_to_nat :: "string \<Rightarrow> nat" where
  "hex_to_nat s = foldl (\<lambda>a c. 16 * a + hex_val c) 0 s"

definition record_fields :: "string \<Rightarrow> string list" where
  "record_fields l = split_on (CHR '','') l"

definition record_word :: "string \<Rightarrow> nat" where
  "record_word l = hex_to_nat (record_fields l ! 0)"

definition record_keep :: "string \<Rightarrow> string" where
  "record_keep l = record_fields l ! 1"

definition record_keep_mask :: "string \<Rightarrow> nat" where
  "record_keep_mask l = hex_to_nat (record_keep l)"

definition record_last :: "string \<Rightarrow> bool" where
  "record_last l = (record_fields l ! 2 = ''1'')"

text \<open>The bytes of a word, two hex digits each, in the order they are written.\<close>

fun hex_pairs :: "string \<Rightarrow> byte list" where
  "hex_pairs (a # b # rest) = of_nat (16 * hex_val a + hex_val b) # hex_pairs rest"
| "hex_pairs _ = []"

text \<open>
  The decoder of the byte-aligned format, as the specification words it: the byte read
  last stands at the most significant (leftmost) position of a word, so the byte lanes in
  arrival order are the written bytes reversed; every record but the final one carries a
  full window; in the final record lane \<open>i\<close> holds data exactly when bit \<open>i\<close> of its
  keep mask is set.
\<close>

definition record_lanes :: "string \<Rightarrow> byte list" where
  "record_lanes l = rev (hex_pairs (record_fields l ! 0))"

definition decode_final :: "string \<Rightarrow> byte list" where
  "decode_final l =
     (let lanes = record_lanes l; keep = record_keep_mask l
      in map (\<lambda>i. lanes ! i) (filter (\<lambda>i. bit keep i) [0..<length lanes]))"

definition decode_reference_log :: "string list \<Rightarrow> byte list" where
  "decode_reference_log ls =
     (if ls = [] then []
      else concat (map record_lanes (butlast ls)) @ decode_final (last ls))"

section \<open>The byte-aligned path, window by window\<close>

text \<open>
  A closed form of what the byte-aligned loop emits, used in the proofs: the input is cut
  into windows of \<open>data_width div 8\<close> bytes; each window but the last gives a line with
  keep mask 0 and last flag 0, the last window (full or not) a line with the keep mask of
  its own size and last flag 1.
\<close>

definition full_line :: "nat \<Rightarrow> byte list \<Rightarrow> string" where
  "full_line data_width window =
     join_str '','' [concat (map fmt_02x (rev window)),
                     fmt_prec_x (data_width div 8 div 4) 0, ''0'']"

definition final_line :: "nat \<Rightarrow> byte list \<Rightarrow> string" where
  "final_line data_width window =
     join_str '',''
       [concat (replicate (data_width div 8 - length window) ''00'' @ map fmt_02x (rev window)),
        fmt_prec_x (data_width div 8 div 4) (2 ^ length window - 1), ''1'']"

function window_lines :: "nat \<Rightarrow> byte list \<Rightarrow> string list" where
  "window_lines data_width xs =
     (if xs = [] then []
      else if data_width div 8 = 0 \<or> length xs \<le> data_width div 8
        then [final_line data_width xs]
      else full_line data_width (take (data_width div 8) xs)
             # window_lines data_width (drop (data_width div 8) xs))"
  by pat_completeness auto
termination
  by (relation "measure (\<lambda>(w, xs). length xs)") auto

declare window_lines.simps [simp del]

section \<open>Reading a width-converter configuration\<close>

text \<open>A configuration narrows when its output width is an integer below its input width.\<close>

definition narrows :: "test_configuration \<Rightarrow> bool" where
  "narrows cfg =
     (case (generic cfg ''INPUT_DATA_WIDTH'', generic cfg ''OUTPUT_DATA_WIDTH'') of
        (Some (IntV i), Some (IntV j)) \<Rightarrow> j < i
      | _ \<Rightarrow> False)"

definition same_widths_32 :: "test_configuration \<Rightarrow> bool" where
  "same_widths_32 cfg =
     (generic cfg ''INPUT_DATA_WIDTH'' = Some (IntV 32)
      \<and> generic cfg ''OUTPUT_DATA_WIDTH'' = Some (IntV 32))"

text \<open>A configuration carries the seed under one of the two parameter names.\<close>

definition carries_seed :: "int \<Rightarrow> test_configuration \<Rightarrow> bool" where
  "carries_seed seed cfg =
     (generic cfg ''seed'' = Some (IntV seed) \<or> generic cfg ''SEED'' = Some (IntV seed))"

section \<open>Arithmetic and string lemmas\<close>

lemma ceil_small: "0 < n \<Longrightarrow> n \<le> W \<Longrightarrow> (n + W - 1) div W = (1::nat)"
proof -
  assume a: "0 < n" "n \<le> W"
  then obtain m where m: "n = Suc m" by (cases n) auto
  have "0 < W" "m < W" using a m by simp_all
  thus ?thesis unfolding m by (simp add: div_add_self2)
qed

lemma floor_small: "0 < n \<Longrightarrow> n \<le> W \<Longrightarrow> (n - 1) div W = (0::nat)"
  by (cases n) auto

lemma ceil_step: "0 < W \<Longrightarrow> W < n \<Longrightarrow> (n - W + W - 1) div W + 1 = (n + W - 1) div (W::nat)"
proof -
  assume a: "0 < W" "W < n"
  then obtain k where k: "n = Suc k + W"
    by (metis add.commute less_imp_Suc_add add_Suc)
  show ?thesis unfolding k using a by (simp add: div_add_self2)
qed

lemma floor_step:
  "0 < W \<Longrightarrow> W < n \<Longrightarrow> W * ((n - W - 1) div W) + W = W * ((n - 1) div (W::nat))"
proof -
  assume a: "0 < W" "W < n"
  then obtain k where k: "n = Suc k + W"
    by (metis add.commute less_imp_Suc_add add_Suc)
  show ?thesis unfolding k using a by (simp add: div_add_self2)
qed

lemma ceil_pos: "0 < W \<Longrightarrow> 0 < n \<Longrightarrow> 0 < (n + W - 1) div (W::nat)"
proof -
  assume a: "0 < W" "0 < n"
  then obtain m where m: "n = Suc m" by (cases n) auto
  show ?thesis unfolding m using a by (simp add: div_add_self2)
qed

lemma lt16_cases: "d < 16 \<Longrightarrow> d \<in> {0,1,2,3,4,5,6,7,8,9,10,11,12,13,14,15::nat}"
  by simp arith

lemma hex_val_hex_digit: "d < 16 \<Longrightarrow> hex_val (hex_digit d) = d"
  by (drule lt16_cases) (elim insertE emptyE; simp add: hex_val_def hex_digit_def hexdigits_def)

lemma hex_digit_not_comma: "d < 16 \<Longrightarrow> CHR '','' \<noteq> hex_digit d"
  by (drule lt16_cases) (elim insertE emptyE; simp add: hex_digit_def hexdigits_def)

lemma hex_to_nat_snoc: "hex_to_nat (s @ [c]) = 16 * hex_to_nat s + hex_val c"
  by (simp add: hex_to_nat_def)

lemma hex_to_nat_hex_str: "hex_to_nat (hex_str n) = n"
proof (induction n rule: hex_str.induct)
  case (1 n)
  show ?case
  proof (cases "n < 16")
    case True
    then show ?thesis
      by (subst hex_str.simps) (simp add: hex_to_nat_def hex_val_hex_digit)
  next
    case False
    with 1 show ?thesis
      by (subst hex_str.simps) (simp add: hex_to_nat_snoc hex_val_hex_digit)
  qed
qed

lemma comma_notin_hex_str: "CHR '','' \<notin> set (hex_str n)"
proof (induction n rule: hex_str.induct)
  case (1 n)
  show ?case
  proof (cases "n < 16")
    case True
    then show ?thesis
      by (subst hex_str.simps) (simp add: hex_digit_not_comma)
  next
    case False
    with 1 show ?thesis
      by (subst hex_str.simps) (simp add: hex_digit_not_comma)
  qed
qed

lemma hex_str_nonempty: "hex_str n \<noteq> []"
  by (subst hex_str.simps) simp

lemma hex_to_nat_zeros: "hex_to_nat (replicate k (CHR ''0'') @ s) = hex_to_nat s"
proof -
  have z: "hex_val (CHR ''0'') = 0" by (simp add: hex_val_def hexdigits_def)
  have "foldl (\<lambda>a c. 16 * a + hex_val c) 0 (replicate k (CHR ''0'')) = 0"
    by (induction k) (simp_all add: z)
  thus ?thesis by (simp add: hex_to_nat_def)
qed

lemma hex_to_nat_zero_pad: "hex_to_nat (zero_pad w (hex_str n)) = n"
  by (simp add: zero_pad_def hex_to_nat_zeros hex_to_nat_hex_str)

lemma comma_notin_zero_pad: "CHR '','' \<notin> set s \<Longrightarrow> CHR '','' \<notin> set (zero_pad w s)"
  by (auto simp: zero_pad_def)

lemma split_on_nonempty: "split_on c s \<noteq> []"
  by (induction s) (auto split: list.splits)

lemma split_on_no_sep: "c \<notin> set a \<Longrightarrow> split_on c a = [a]"
  by (induction a) auto

lemma split_on_append: "c \<notin> set a \<Longrightarrow> split_on c (a @ c # rest) = a # split_on c rest"
  by (induction a) auto

lemma split_on_pieces: "x \<in> set (split_on c s) \<Longrightarrow> c \<notin> set x"
proof (induction s arbitrary: x)
  case Nil
  then show ?case by simp
next
  case (Cons a s)
  show ?case
  proof (cases "a = c")
    case True
    with Cons show ?thesis by auto
  next
    case False
    obtain w ws where sp: "split_on c s = w # ws"
      using split_on_nonempty[of c s] by (cases "split_on c s") auto
    with False Cons.prems have "x = a # w \<or> x \<in> set ws" by simp
    moreover have "c \<notin> set w" using Cons.IH[of w] sp by simp
    moreover have "x \<in> set ws \<Longrightarrow> c \<notin> set x" using Cons.IH[of x] sp by simp
    ultimately show ?thesis using False by auto
  qed
qed

lemma split_on_join:
  "xs \<noteq> [] \<Longrightarrow> \<forall>x\<in>set xs. c \<notin> set x \<Longrightarrow> split_on c (join_str [c] xs) = xs"
proof (induction xs)
  case Nil
  then show ?case by simp
next
  case step: (Cons x xs)
  show ?case
  proof (cases xs)
    case Nil
    with step.prems show ?thesis by (simp add: split_on_no_sep)
  next
    case (Cons y ys)
    with step.prems step.IH show ?thesis by (simp add: split_on_append)
  qed
qed

lemma bin_val_snoc: "bin_val (s @ [c]) = 2 * bin_val s + (if c = CHR ''1'' then 1 else 0)"
  by (simp add: bin_val_def)

lemma bin_val_bound: "bin_val s < 2 ^ length s"
proof (induction s rule: rev_induct)
  case Nil
  then show ?case by (simp add: bin_val_def)
next
  case (snoc c s)
  then show ?case by (simp add: bin_val_snoc)
qed

lemma bin_str_length: "0 < k \<Longrightarrow> n < 2 ^ k \<Longrightarrow> length (bin_str n) \<le> k"
proof (induction n arbitrary: k rule: bin_str.induct)
  case (1 n)
  show ?case
  proof (cases "n < 2")
    case True
    with 1(2) show ?thesis by (subst bin_str.simps) simp
  next
    case False
    have "k \<noteq> 1" using False 1(3) by auto
    then obtain k' where k: "k = Suc k'" and k': "0 < k'"
      using 1(2) by (cases k) auto
    from 1(3) k have "n div 2 < 2 ^ k'" by simp
    with 1(1)[OF False k'] have "length (bin_str (n div 2)) \<le> k'" by simp
    with False k show ?thesis by (subst bin_str.simps) simp
  qed
qed

lemma binary_digit_bin_digit: "binary_digit (bin_digit d)"
  by (simp add: bin_digit_def binary_digit_def)

lemma bin_str_digits: "list_all binary_digit (bin_str n)"
proof (induction n rule: bin_str.induct)
  case (1 n)
  show ?case
  proof (cases "n < 2")
    case True
    then show ?thesis by (subst bin_str.simps) (simp add: binary_digit_bin_digit)
  next
    case False
    with 1 show ?thesis by (subst bin_str.simps) (simp add: binary_digit_bin_digit)
  qed
qed

lemma unat_byte_less: "unat (b :: byte) < 256"
  using unsigned_less[of b, where 'a=nat] by simp

lemma bin_str_byte_length: "length (bin_str (unat (b :: byte))) \<le> 8"
proof -
  have "unat b < 2 ^ 8" using unat_byte_less[of b] by simp
  thus ?thesis by (rule bin_str_length[rotated]) simp
qed

lemma little_endian_bits_length: "length (little_endian_bits b) = 8"
  using bin_str_byte_length[of b] by (simp add: little_endian_bits_def Let_def)

lemma list_all_replicate: "P x \<Longrightarrow> list_all P (replicate n x)"
  by (induction n) simp_all

lemma little_endian_bits_digits: "list_all binary_digit (little_endian_bits b)"
proof -
  have "binary_digit (CHR ''0'')" by (simp add: binary_digit_def)
  thus ?thesis
    using bin_str_digits[of "unat b"]
    by (simp add: little_endian_bits_def Let_def list_all_replicate)
qed

lemma flatten_bits_foldl:
  "foldl (\<lambda>flattened b. flattened @ little_endian_bits b) acc xs
     = acc @ concat (map little_endian_bits xs)"
  by (induction xs arbitrary: acc) simp_all

lemma flatten_bits_concat: "flatten_bits xs = concat (map little_endian_bits xs)"
  unfolding flatten_bits_def
  apply (subst flatten_bits_foldl)
  apply (rule append_Nil)
  done

lemma flatten_bits_Nil: "flatten_bits [] = []"
  by (simp only: flatten_bits_concat list.map concat.simps)

lemma flatten_bits_Cons: "flatten_bits (b # xs) = little_endian_bits b @ flatten_bits xs"
  by (simp only: flatten_bits_concat list.map concat.simps)

lemma flatten_bits_length: "length (flatten_bits xs) = 8 * length xs"
proof (induction xs)
  case Nil
  show ?case by (simp add: flatten_bits_Nil)
next
  case (Cons b xs)
  thus ?case by (simp add: flatten_bits_Cons little_endian_bits_length)
qed

lemma flatten_bits_digits: "list_all binary_digit (flatten_bits xs)"
proof (induction xs)
  case Nil
  show ?case by (simp add: flatten_bits_Nil)
next
  case (Cons b xs)
  thus ?case by (simp add: flatten_bits_Cons little_endian_bits_digits)
qed

lemma slice_loop_Nil: "slice_loop W [] lines = Inr lines"
  by (subst slice_loop.simps) simp

lemma slice_loop_step:
  "flat \<noteq> [] \<Longrightarrow> int_base2 (take W flat) = Inr word \<Longrightarrow>
   slice_loop W flat lines =
     slice_loop W (drop W flat)
       (lines @ [join_str '','' [hex_str word, '''', if drop W flat = [] then ''1'' else ''0'']])"
  by (subst slice_loop.simps) (simp add: Let_def)

lemma list_all_take: "list_all P xs \<Longrightarrow> list_all P (take n xs)"
  by (auto simp: list_all_iff dest: in_set_takeD)

lemma list_all_drop: "list_all P xs \<Longrightarrow> list_all P (drop n xs)"
  by (auto simp: list_all_iff dest: in_set_dropD)

lemma slice_loop_spec:
  "0 < W \<Longrightarrow> list_all binary_digit flat \<Longrightarrow>
   \<exists>ls. slice_loop W flat lines = Inr (lines @ ls)
      \<and> length ls = (length flat + W - 1) div W
      \<and> (flat \<noteq> [] \<longrightarrow>
           last ls = join_str '',''
                       [hex_str (bin_val (drop (W * ((length flat - 1) div W)) flat)), '''', ''1''])"
proof (induction W flat lines rule: slice_loop.induct)
  case (1 W flat lines)
  show ?case
  proof (cases "flat = []")
    case True
    then show ?thesis using 1(2) by (simp add: slice_loop_Nil)
  next
    case ne: False
    let ?n = "length flat"
    have npos: "0 < ?n" using ne by simp
    have tk: "take W flat \<noteq> []" using ne 1(2) by simp
    have dig: "list_all binary_digit (take W flat)"
      using 1(3) by (rule list_all_take)
    have ib: "int_base2 (take W flat) = Inr (bin_val (take W flat))"
      using tk dig by (simp add: int_base2_def)
    show ?thesis
    proof (cases "drop W flat = []")
      case True
      hence le: "?n \<le> W" by simp
      have "slice_loop W flat lines
              = Inr (lines @ [join_str '','' [hex_str (bin_val (take W flat)), '''', ''1'']])"
        using True by (simp add: slice_loop_step[OF ne ib] slice_loop_Nil)
      moreover have "take W flat = flat" using le by simp
      ultimately show ?thesis
        using ceil_small[OF npos le] floor_small[OF npos le] by simp
    next
      case False
      hence gt: "W < ?n" by simp
      let ?l = "join_str '','' [hex_str (bin_val (take W flat)), '''', ''0'']"
      have dig': "list_all binary_digit (drop W flat)"
        using 1(3) by (rule list_all_drop)
      from 1(1)[OF ne ib refl refl 1(2) dig'] False
      obtain ls where ls: "slice_loop W (drop W flat) (lines @ [?l]) = Inr ((lines @ [?l]) @ ls)"
        and len: "length ls = (length (drop W flat) + W - 1) div W"
        and lst: "last ls = join_str '',''
               [hex_str (bin_val (drop (W * ((length (drop W flat) - 1) div W)) (drop W flat))),
                '''', ''1'']"
        by auto
      have sl: "slice_loop W flat lines = Inr (lines @ ?l # ls)"
        using False ls by (simp add: slice_loop_step[OF ne ib])
      have len': "length ls = (?n - W + W - 1) div W" using len by simp
      have lsne: "ls \<noteq> []"
      proof -
        have "0 < ?n - W" using gt by simp
        from ceil_pos[OF 1(2) this] len' show ?thesis by auto
      qed
      have "length (?l # ls) = (?n + W - 1) div W"
        using len' ceil_step[OF 1(2) gt] by simp
      moreover have "last (?l # ls) = join_str '',''
                       [hex_str (bin_val (drop (W * ((?n - 1) div W)) flat)), '''', ''1'']"
        using lsne lst floor_step[OF 1(2) gt] by (simp add: add.commute)
      ultimately show ?thesis using sl by (intro exI[of _ "?l # ls"]) simp
    qed
  qed
qed

section \<open>The codec is deterministic; the one-bit example\<close>

lemma sub_byte_path_ok:
  "0 < W \<Longrightarrow>
   \<exists>ls. sub_byte_path W S = Inr ls
      \<and> length ls = (8 * length S + W - 1) div W
      \<and> (S \<noteq> [] \<longrightarrow>
           last ls = join_str '',''
             [hex_str (bin_val (drop (W * ((8 * length S - 1) div W)) (flatten_bits S))),
              '''', ''1''])"
proof -
  assume W: "0 < W"
  from slice_loop_spec[OF W flatten_bits_digits, of S "[]"]
  obtain ls where ls: "slice_loop W (flatten_bits S) [] = Inr ([] @ ls)"
    and len: "length ls = (length (flatten_bits S) + W - 1) div W"
    and lst: "flatten_bits S \<noteq> [] \<longrightarrow>
           last ls = join_str '',''
             [hex_str (bin_val (drop (W * ((length (flatten_bits S) - 1) div W)) (flatten_bits S))),
              '''', ''1'']"
    by blast
  have ne: "S \<noteq> [] \<Longrightarrow> flatten_bits S \<noteq> []"
    using flatten_bits_length[of S] by (cases S) auto
  have "sub_byte_path W S = Inr ls"
    using ls by (simp add: sub_byte_path_def Let_def flatten_bits_length)
  thus ?thesis using len lst ne by (simp add: flatten_bits_length)
qed

lemma reference_lines_ok: "0 < W \<Longrightarrow> \<exists>ls. reference_lines W n S = Inr ls"
  using sub_byte_path_ok[of W S] by (auto simp: reference_lines_def)

text \<open>
  Claim C2 (the codec is a function of the byte sequence and the width alone).  Two runs of
  \<open>generateAxiFileReaderTestFile\<close> with the same positive \<open>data_width\<close> whose random draws
  give the same byte sequence both succeed and leave the same reference file and the same
  raw file, whatever the file system held before each run.
\<close>

theorem codec_deterministic:
  assumes "0 < data_width"
    and "map rand1 [0..<len] = map rand2 [0..<len]"
  shows "\<exists>raw ref fs1' fs2'.
           generateAxiFileReaderTestFile test_file reference_file data_width len rand1 fs1 = Inr fs1'
         \<and> generateAxiFileReaderTestFile test_file reference_file data_width len rand2 fs2 = Inr fs2'
         \<and> fs1' reference_file = Some ref \<and> fs2' reference_file = Some ref
         \<and> (test_file \<noteq> reference_file \<longrightarrow>
               fs1' test_file = Some raw \<and> fs2' test_file = Some raw)"
proof -
  obtain ls where ls: "reference_lines data_width len (map rand2 [0..<len]) = Inr ls"
    using reference_lines_ok[OF assms(1)] by blast
  have ls1: "reference_lines data_width len (map rand1 [0..<len]) = Inr ls"
    using ls by (simp only: assms(2))
  have g1: "generateAxiFileReaderTestFile test_file reference_file data_width len rand1 fs1
              = Inr (fs1(test_file \<mapsto> pack_bytes (map rand2 [0..<len]),
                         reference_file \<mapsto> reference_text ls))"
    unfolding generateAxiFileReaderTestFile_def Let_def ls1 by (simp only: assms(2) sum.case)
  have g2: "generateAxiFileReaderTestFile test_file reference_file data_width len rand2 fs2
              = Inr (fs2(test_file \<mapsto> pack_bytes (map rand2 [0..<len]),
                         reference_file \<mapsto> reference_text ls))"
    unfolding generateAxiFileReaderTestFile_def Let_def ls by (simp only: sum.case)
  show ?thesis unfolding g1 g2 by auto
qed

theorem codec_deterministic_witness:
  "map (\<lambda>k. of_nat k) [0..<2] = map (\<lambda>k. if k < 2 then of_nat k else (7 :: byte)) [0..<2]
   \<and> (\<exists>raw ref fs1' fs2'.
         generateAxiFileReaderTestFile ''in.bin'' ''ref.bin'' 8 2 (\<lambda>k. of_nat k) Map.empty = Inr fs1'
       \<and> generateAxiFileReaderTestFile ''in.bin'' ''ref.bin'' 8 2
            (\<lambda>k. if k < 2 then of_nat k else 7) [''ref.bin'' \<mapsto> ''stale''] = Inr fs2'
       \<and> fs1' ''ref.bin'' = Some ref \<and> fs2' ''ref.bin'' = Some ref
       \<and> fs1' ''in.bin'' = Some raw \<and> fs2' ''in.bin'' = Some raw)"
proof -
  have eq: "map (\<lambda>k. of_nat k) [0..<2] = map (\<lambda>k. if k < 2 then of_nat k else (7 :: byte)) [0..<2]"
    by (simp add: upt_rec)
  have ne: "''in.bin'' \<noteq> ''ref.bin''" by simp
  from codec_deterministic[of 8 "\<lambda>k. of_nat k" 2 "\<lambda>k. if k < 2 then of_nat k else 7",
        OF _ eq, of "''in.bin''" "''ref.bin''" Map.empty "[''ref.bin'' \<mapsto> ''stale'']"] ne
  show ?thesis using eq by auto
qed

text \<open>
  Claim C8.  The single byte \<open>0x01\<close> at \<open>data_width = 1\<close> gives eight records; their words
  are 1, 0, 0, 0, 0, 0, 0, 0, the keep field is empty on each, and only the final record has
  the last flag.
\<close>

theorem encode_one_bit_example:
  "encode 1 [0x01] = Inr [''1,,0'', ''0,,0'', ''0,,0'', ''0,,0'', ''0,,0'', ''0,,0'', ''0,,0'', ''0,,1'']
   \<and> map record_word [''1,,0'', ''0,,0'', ''0,,0'', ''0,,0'', ''0,,0'', ''0,,0'', ''0,,0'', ''0,,1'']
       = [1, 0, 0, 0, 0, 0, 0, 0]
   \<and> map record_keep [''1,,0'', ''0,,0'', ''0,,0'', ''0,,0'', ''0,,0'', ''0,,0'', ''0,,0'', ''0,,1'']
       = ['''', '''', '''', '''', '''', '''', '''', '''']
   \<and> map record_last [''1,,0'', ''0,,0'', ''0,,0'', ''0,,0'', ''0,,0'', ''0,,0'', ''0,,0'', ''0,,1'']
       = [False, False, False, False, False, False, False, True]"
  by code_simp

section \<open>Error variants\<close>

lemma tdata_single_error_update:
  "9 \<le> length ref_data \<Longrightarrow> tdata_single_error ref_data = Inr (ref_data[7 := ref_data ! 8])"
proof -
  assume len: "9 \<le> length ref_data"
  have "take 7 ref_data @ [ref_data ! 8] @ drop 8 ref_data = ref_data[7 := ref_data ! 8]"
    using len by (simp add: upd_conv_take_nth_drop)
  thus ?thesis using len by (simp add: tdata_single_error_def)
qed

lemma split_on_pieces_ball: "\<forall>x\<in>set (split_on c s). c \<notin> set x"
  using split_on_pieces by blast

lemma list_update_pieces:
  "\<forall>x\<in>set xs. c \<notin> set x \<Longrightarrow> c \<notin> set y \<Longrightarrow> \<forall>x\<in>set (xs[i := y]). c \<notin> set x"
  by (metis insert_iff set_update_subset_insert subsetD)

text \<open>
  Claim C1, as the code has it.  For a reference file that splits into at least 9 pieces at
  newlines, the single-error variant keeps pieces 0 to 6, puts a copy of piece 8 at
  position 7 (piece 7 is dropped), keeps the pieces from 8 on, and has exactly as many
  pieces as the reference file.
\<close>

theorem tdata_single_error_keeps_length:
  assumes "9 \<le> length (split_on (CHR 0x0A) content)"
  shows "\<exists>out. tdata_single_error_file content = Inr out
           \<and> take 7 (split_on (CHR 0x0A) out) = take 7 (split_on (CHR 0x0A) content)
           \<and> split_on (CHR 0x0A) out ! 7 = split_on (CHR 0x0A) content ! 8
           \<and> drop 8 (split_on (CHR 0x0A) out) = drop 8 (split_on (CHR 0x0A) content)
           \<and> length (split_on (CHR 0x0A) out) = length (split_on (CHR 0x0A) content)"
proof -
  let ?L = "split_on (CHR 0x0A) content"
  let ?M = "?L[7 := ?L ! 8]"
  have out: "tdata_single_error_file content = Inr (join_str [CHR 0x0A] ?M)"
    using tdata_single_error_update[OF assms] by (simp add: tdata_single_error_file_def)
  have "?L ! 8 \<in> set ?L" using assms by simp
  hence "\<forall>x\<in>set ?M. CHR 0x0A \<notin> set x"
    using split_on_pieces_ball[of "CHR 0x0A" content] by (intro list_update_pieces) auto
  moreover have "?M \<noteq> []" using assms by auto
  ultimately have rt: "split_on (CHR 0x0A) (join_str [CHR 0x0A] ?M) = ?M"
    by (rule split_on_join[rotated])
  show ?thesis unfolding out using assms by (simp add: rt)
qed

theorem tdata_single_error_keeps_length_witness:
  "9 \<le> length (split_on (CHR 0x0A) ''a0\<newline>a1\<newline>a2\<newline>a3\<newline>a4\<newline>a5\<newline>a6\<newline>a7\<newline>a8\<newline>'')
   \<and> (\<exists>out. tdata_single_error_file ''a0\<newline>a1\<newline>a2\<newline>a3\<newline>a4\<newline>a5\<newline>a6\<newline>a7\<newline>a8\<newline>'' = Inr out
         \<and> split_on (CHR 0x0A) out ! 7 = ''a8''
         \<and> length (split_on (CHR 0x0A) out) = 10)"
proof -
  have h: "9 \<le> length (split_on (CHR 0x0A) ''a0\<newline>a1\<newline>a2\<newline>a3\<newline>a4\<newline>a5\<newline>a6\<newline>a7\<newline>a8\<newline>'')"
    by simp
  have v: "split_on (CHR 0x0A) ''a0\<newline>a1\<newline>a2\<newline>a3\<newline>a4\<newline>a5\<newline>a6\<newline>a7\<newline>a8\<newline>''
             = [''a0'', ''a1'', ''a2'', ''a3'', ''a4'', ''a5'', ''a6'', ''a7'', ''a8'', '''']"
    by simp
  from tdata_single_error_keeps_length[OF h] show ?thesis
    unfolding v by (auto simp: h)
qed

theorem single_mismatch_counterexample:
  "tdata_single_error_file ''a0\<newline>a1\<newline>a2\<newline>a3\<newline>a4\<newline>a5\<newline>a6\<newline>a7\<newline>a8\<newline>''
     = Inr ''a0\<newline>a1\<newline>a2\<newline>a3\<newline>a4\<newline>a5\<newline>a6\<newline>a8\<newline>a8\<newline>''
   \<and> split_on (CHR 0x0A) ''a0\<newline>a1\<newline>a2\<newline>a3\<newline>a4\<newline>a5\<newline>a6\<newline>a8\<newline>a8\<newline>'' ! 7
       \<noteq> split_on (CHR 0x0A) ''a0\<newline>a1\<newline>a2\<newline>a3\<newline>a4\<newline>a5\<newline>a6\<newline>a7\<newline>a8\<newline>'' ! 7
   \<and> length (split_on (CHR 0x0A) ''a0\<newline>a1\<newline>a2\<newline>a3\<newline>a4\<newline>a5\<newline>a6\<newline>a8\<newline>a8\<newline>'')
       \<noteq> length (split_on (CHR 0x0A) ''a0\<newline>a1\<newline>a2\<newline>a3\<newline>a4\<newline>a5\<newline>a6\<newline>a7\<newline>a8\<newline>'') + 1"
  by (simp add: tdata_single_error_file_def tdata_single_error_def)

lemma two_errors_shape:
  assumes "18 \<le> length L"
  shows "take 7 L @ [L ! 8, L ! 8] @ take (16 - 9) (drop 9 L) @ [L ! 17] @ drop 17 L
           = L[7 := L ! 8, 16 := L ! 17]"
proof -
  have a: "take 7 L @ [L ! 8] @ drop 8 L = L[7 := L ! 8]"
    using assms by (simp add: upd_conv_take_nth_drop)
  have b: "drop 8 L = L ! 8 # take 7 (drop 9 L) @ drop 16 L"
  proof -
    have "drop 8 L = L ! 8 # drop 9 L" using assms Cons_nth_drop_Suc[of 8 L] by simp
    moreover have "drop 9 L = take 7 (drop 9 L) @ drop 16 L"
      using append_take_drop_id[of 7 "drop 9 L"] by simp
    ultimately show ?thesis by simp
  qed
  have c: "L[7 := L ! 8] = take 7 L @ [L ! 8, L ! 8] @ take 7 (drop 9 L) @ drop 16 L"
    using a b by simp
  let ?P = "take 7 L @ [L ! 8, L ! 8] @ take 7 (drop 9 L)"
  have lenP: "length ?P = 16" using assms by simp
  have d16: "drop 16 L = L ! 16 # drop 17 L" using assms Cons_nth_drop_Suc[of 16 L] by simp
  have "(?P @ L ! 16 # drop 17 L)[16 := L ! 17] = ?P @ [L ! 17] @ drop 17 L"
    using lenP by (simp add: list_update_append)
  moreover have "L[7 := L ! 8] = ?P @ L ! 16 # drop 17 L" using c d16 by simp
  ultimately show ?thesis by simp
qed

lemma tdata_two_errors_update:
  "18 \<le> length ref_data \<Longrightarrow>
   tdata_two_errors ref_data = Inr (ref_data[7 := ref_data ! 8, 16 := ref_data ! 17])"
  using two_errors_shape[of ref_data] by (simp add: tdata_two_errors_def)

text \<open>
  Claim C4, as the code has it.  For a reference file that splits into at least 18 pieces
  at newlines, the two-errors variant is the reference file with position 7 overwritten by
  piece 8 and position 16 overwritten by piece 17; every other position is unchanged and
  the number of pieces is the same.
\<close>

theorem tdata_two_errors_keeps_length:
  assumes "18 \<le> length (split_on (CHR 0x0A) content)"
  shows "\<exists>out. tdata_two_errors_file content = Inr out
           \<and> split_on (CHR 0x0A) out
               = (split_on (CHR 0x0A) content)
                   [7 := split_on (CHR 0x0A) content ! 8, 16 := split_on (CHR 0x0A) content ! 17]
           \<and> length (split_on (CHR 0x0A) out) = length (split_on (CHR 0x0A) content)"
proof -
  let ?L = "split_on (CHR 0x0A) content"
  let ?M = "?L[7 := ?L ! 8, 16 := ?L ! 17]"
  have out: "tdata_two_errors_file content = Inr (join_str [CHR 0x0A] ?M)"
    using tdata_two_errors_update[OF assms] by (simp add: tdata_two_errors_file_def)
  have "?L ! 8 \<in> set ?L" "?L ! 17 \<in> set ?L" using assms by simp_all
  hence "\<forall>x\<in>set ?M. CHR 0x0A \<notin> set x"
    using split_on_pieces_ball[of "CHR 0x0A" content]
    by (intro list_update_pieces) auto
  moreover have "?M \<noteq> []" using assms by auto
  ultimately have rt: "split_on (CHR 0x0A) (join_str [CHR 0x0A] ?M) = ?M"
    by (rule split_on_join[rotated])
  show ?thesis unfolding out by (simp add: rt)
qed

theorem tdata_two_errors_keeps_length_witness:
  "18 \<le> length (split_on (CHR 0x0A)
       ''b00\<newline>b01\<newline>b02\<newline>b03\<newline>b04\<newline>b05\<newline>b06\<newline>b07\<newline>b08\<newline>b09\<newline>b10\<newline>b11\<newline>b12\<newline>b13\<newline>b14\<newline>b15\<newline>b16\<newline>b17\<newline>b18\<newline>'')
   \<and> (\<exists>out. tdata_two_errors_file
       ''b00\<newline>b01\<newline>b02\<newline>b03\<newline>b04\<newline>b05\<newline>b06\<newline>b07\<newline>b08\<newline>b09\<newline>b10\<newline>b11\<newline>b12\<newline>b13\<newline>b14\<newline>b15\<newline>b16\<newline>b17\<newline>b18\<newline>'' = Inr out
         \<and> split_on (CHR 0x0A) out ! 7 = ''b08''
         \<and> split_on (CHR 0x0A) out ! 16 = ''b17''
         \<and> length (split_on (CHR 0x0A) out) = 20)"
proof -
  have h: "18 \<le> length (split_on (CHR 0x0A)
       ''b00\<newline>b01\<newline>b02\<newline>b03\<newline>b04\<newline>b05\<newline>b06\<newline>b07\<newline>b08\<newline>b09\<newline>b10\<newline>b11\<newline>b12\<newline>b13\<newline>b14\<newline>b15\<newline>b16\<newline>b17\<newline>b18\<newline>'')"
    by simp
  from tdata_two_errors_keeps_length[OF h] show ?thesis
    by (auto simp: h)
qed

theorem double_mismatch_counterexample:
  "tdata_two_errors_file
       ''b00\<newline>b01\<newline>b02\<newline>b03\<newline>b04\<newline>b05\<newline>b06\<newline>b07\<newline>b08\<newline>b09\<newline>b10\<newline>b11\<newline>b12\<newline>b13\<newline>b14\<newline>b15\<newline>b16\<newline>b17\<newline>b18\<newline>''
     = Inr ''b00\<newline>b01\<newline>b02\<newline>b03\<newline>b04\<newline>b05\<newline>b06\<newline>b08\<newline>b08\<newline>b09\<newline>b10\<newline>b11\<newline>b12\<newline>b13\<newline>b14\<newline>b15\<newline>b17\<newline>b17\<newline>b18\<newline>''
   \<and> split_on (CHR 0x0A) ''b00\<newline>b01\<newline>b02\<newline>b03\<newline>b04\<newline>b05\<newline>b06\<newline>b08\<newline>b08\<newline>b09\<newline>b10\<newline>b11\<newline>b12\<newline>b13\<newline>b14\<newline>b15\<newline>b17\<newline>b17\<newline>b18\<newline>'' ! 7
       \<noteq> split_on (CHR 0x0A) ''b00\<newline>b01\<newline>b02\<newline>b03\<newline>b04\<newline>b05\<newline>b06\<newline>b07\<newline>b08\<newline>b09\<newline>b10\<newline>b11\<newline>b12\<newline>b13\<newline>b14\<newline>b15\<newline>b16\<newline>b17\<newline>b18\<newline>'' ! 7
   \<and> length (split_on (CHR 0x0A) ''b00\<newline>b01\<newline>b02\<newline>b03\<newline>b04\<newline>b05\<newline>b06\<newline>b08\<newline>b08\<newline>b09\<newline>b10\<newline>b11\<newline>b12\<newline>b13\<newline>b14\<newline>b15\<newline>b17\<newline>b17\<newline>b18\<newline>'')
       \<noteq> length (split_on (CHR 0x0A) ''b00\<newline>b01\<newline>b02\<newline>b03\<newline>b04\<newline>b05\<newline>b06\<newline>b07\<newline>b08\<newline>b09\<newline>b10\<newline>b11\<newline>b12\<newline>b13\<newline>b14\<newline>b15\<newline>b16\<newline>b17\<newline>b18\<newline>'') + 2"
  by (simp add: tdata_two_errors_file_def tdata_two_errors_def)

section \<open>Width converter configurations\<close>

lemma concat_map_Nil: "(\<And>x. f x = []) \<Longrightarrow> concat (map f xs) = []"
  by (induction xs) simp_all

lemma filter_concat_map: "filter P (concat (map f xs)) = concat (map (\<lambda>x. filter P (f x)) xs)"
  by (induction xs) simp_all

lemma converter_loop_narrows:
  "filter (\<lambda>c. \<not> narrows c)
     (concat (map (\<lambda>input_data_width.
        concat (map (\<lambda>output_data_width.
            if output_data_width \<ge> input_data_width then []
            else [\<lparr>name = nm input_data_width output_data_width,
                   generics = [(''INPUT_DATA_WIDTH'', IntV input_data_width),
                               (''OUTPUT_DATA_WIDTH'', IntV output_data_width),
                               (''seed'', IntV seed)]\<rparr>])
          (outs input_data_width))) ins)) = []"
  unfolding filter_concat_map
  by (intro concat_map_Nil) (simp add: narrows_def generic_def)

lemma narrows_imp_not_same: "narrows c \<Longrightarrow> \<not> same_widths_32 c"
  by (auto simp: narrows_def same_widths_32_def)

lemma filter_same_subset:
  "filter (\<lambda>c. \<not> narrows c) xs = [] \<Longrightarrow> filter same_widths_32 xs = []"
  by (induction xs) (auto split: if_splits dest: narrows_imp_not_same)

text \<open>
  Claim C9.  Whatever order the two width sets are iterated in, the only width-converter
  configuration whose output width is not below its input width is the baseline
  \<open>same_widths\<close>, and exactly one configuration has input and output width 32.
\<close>

theorem width_converter_filter:
  "filter (\<lambda>c. \<not> narrows c) (addAxiWidthConverterTests set_iter seed)
     = [\<lparr>name = ''same_widths'',
         generics = [(''INPUT_DATA_WIDTH'', IntV 32), (''OUTPUT_DATA_WIDTH'', IntV 32),
                     (''seed'', IntV seed)]\<rparr>]
   \<and> length (filter same_widths_32 (addAxiWidthConverterTests set_iter seed)) = 1"
proof -
  let ?loop = "concat (map (\<lambda>input_data_width.
        concat (map (\<lambda>output_data_width.
            if output_data_width \<ge> input_data_width then []
            else [\<lparr>name = ''input_data_width='' @ str_int input_data_width @ '',''
                           @ ''output_data_width='' @ str_int output_data_width,
                   generics = [(''INPUT_DATA_WIDTH'', IntV input_data_width),
                               (''OUTPUT_DATA_WIDTH'', IntV output_data_width),
                               (''seed'', IntV seed)]\<rparr>])
          (set_iter ({1, 3, 8, 24, 32, 128} - {input_data_width})))) (set_iter {1, 8, 24, 32, 128}))"
  have n: "filter (\<lambda>c. \<not> narrows c) ?loop = []"
    by (rule converter_loop_narrows)
  have s: "filter same_widths_32 ?loop = []"
    using n by (rule filter_same_subset)
  show ?thesis
    unfolding addAxiWidthConverterTests_def
    by (simp add: n s narrows_def same_widths_32_def generic_def)
qed

section \<open>Seed\<close>

lemma async_fifo_seed: "cfg \<in> set (addAsyncFifoTests seed) \<Longrightarrow> carries_seed seed cfg"
  by (auto simp: addAsyncFifoTests_def carries_seed_def generic_def Let_def)

lemma delay_seed: "cfg \<in> set (addAxiStreamDelayTests seed) \<Longrightarrow> carries_seed seed cfg"
  by (auto simp: addAxiStreamDelayTests_def carries_seed_def generic_def)

lemma file_reader_seed: "cfg \<in> set (addAxiFileReaderTests ROOT seed) \<Longrightarrow> carries_seed seed cfg"
  by (auto simp: addAxiFileReaderTests_def carries_seed_def generic_def Let_def)

lemma file_compare_seed: "cfg \<in> set (addAxiFileCompareTests ROOT seed) \<Longrightarrow> carries_seed seed cfg"
  by (auto simp: addAxiFileCompareTests_def carries_seed_def generic_def Let_def)

lemma width_converter_seed:
  "cfg \<in> set (addAxiWidthConverterTests set_iter seed) \<Longrightarrow> carries_seed seed cfg"
  by (auto simp: addAxiWidthConverterTests_def carries_seed_def generic_def split: if_splits)

lemma embiggener_seed: "cfg \<in> set (addAxiEmbiggenerTests seed) \<Longrightarrow> carries_seed seed cfg"
  by (auto simp: addAxiEmbiggenerTests_def carries_seed_def generic_def Let_def)

lemma arbiter_seed:
  "(test, cfg) \<in> set (addAxiArbiterTests tests seed) \<Longrightarrow> carries_seed seed cfg"
  by (auto simp: addAxiArbiterTests_def arbiter_config_def carries_seed_def generic_def
           split: if_splits)

lemma addTests_seed:
  "(t, cfg) \<in> set (addTests ROOT set_iter arbiter_tests seed) \<Longrightarrow> carries_seed seed cfg"
  unfolding addTests_def
  by (auto dest: async_fifo_seed delay_seed file_reader_seed file_compare_seed
                 width_converter_seed embiggener_seed arbiter_seed
           simp: carries_seed_def generic_def)

text \<open>
  Claim C7, as the code has it.  A seed given on the command line is used as it is,
  whatever integer it is; a default seed is at least \<open>-2^31\<close>; and the seed in use is in
  the generics of every configuration \<open>addTests\<close> registers, under \<open>seed\<close> or \<open>SEED\<close>.
\<close>

theorem seed_propagation:
  "(\<forall>s. main_seed (Some s) = {s})
   \<and> (\<forall>d\<in>main_seed None. - (2 ^ 31) \<le> d)
   \<and> (\<forall>seed\<in>main_seed supplied.
        \<forall>(t, cfg)\<in>set (addTests ROOT set_iter arbiter_tests seed). carries_seed seed cfg)"
  by (auto simp: main_seed_def randint_def push_bit_eq_mult dest: addTests_seed)

theorem seed_propagation_witness:
  "main_seed (Some 5000000000) = {5000000000}
   \<and> - 7 \<in> main_seed None \<and> - (2 ^ 31) \<le> (- 7 :: int)
   \<and> (Test ''axi_stream_arbiter_tb'' ''test_absolute_priority'',
        arbiter_config ''ABSOLUTE'' False 5000000000)
       \<in> set (addTests ''/repo'' sorted_list_of_set [''test_absolute_priority''] 5000000000)
   \<and> carries_seed 5000000000 (arbiter_config ''ABSOLUTE'' False 5000000000)"
proof -
  have a: "(- 7 :: int) \<in> main_seed None"
    by (simp add: main_seed_def randint_def push_bit_eq_mult)
  have b: "(5000000000 :: int) \<in> main_seed (Some 5000000000)"
    by (simp add: main_seed_def)
  have c: "(Test ''axi_stream_arbiter_tb'' ''test_absolute_priority'',
        arbiter_config ''ABSOLUTE'' False 5000000000)
       \<in> set (addTests ''/repo'' sorted_list_of_set [''test_absolute_priority''] 5000000000)"
    by (simp add: addTests_def addAxiArbiterTests_def startswith_def)
  from seed_propagation[of "Some 5000000000" "''/repo''" sorted_list_of_set
         "[''test_absolute_priority'']"] a b c
  show ?thesis by fastforce
qed

theorem seed_range_counterexample:
  "(5000000000 :: int) \<in> main_seed (Some 5000000000)
   \<and> \<not> (- (2 ^ 31) \<le> (5000000000 :: int) \<and> (5000000000 :: int) \<le> 2 ^ 31 - 1)"
  by (simp add: main_seed_def)

text \<open>
  The default seed can be \<open>2^31\<close>: \<open>random.randint\<close> includes its upper end \<open>1 << 31\<close>.
\<close>

lemma default_seed_upper_end: "(2 ^ 31 :: int) \<in> main_seed None"
  by (simp add: main_seed_def randint_def push_bit_eq_mult)

section \<open>Counting lines\<close>

lemma ceil_div_real:
  assumes b: "0 < (b::nat)"
  shows "int ((a + b - 1) div b) = \<lceil>real a / real b\<rceil>"
proof (cases a)
  case 0
  then show ?thesis using b by simp
next
  case (Suc m)
  let ?q = "m div b"
  have q: "(Suc m + b - 1) div b = ?q + 1" using b by (simp add: div_add_self2)
  have lo: "?q * b \<le> m" by simp
  have hi: "m < (?q + 1) * b" using b
    by (metis add.commute dividend_less_div_times mult.commute mult_Suc Suc_eq_plus1 add.assoc)
  have rb: "0 < real b" using b by simp
  have "real ?q * real b < real (Suc m)"
    using lo by (metis of_nat_mult of_nat_less_iff le_imp_less_Suc)
  hence l: "real ?q < real (Suc m) / real b" using rb by (simp add: pos_less_divide_eq)
  have "real (Suc m) \<le> (real ?q + 1) * real b"
    using hi by (metis Suc_leI of_nat_le_iff of_nat_mult of_nat_add of_nat_1)
  hence u: "real (Suc m) / real b \<le> real ?q + 1" using rb by (simp add: pos_divide_le_eq)
  have "\<lceil>real (Suc m) / real b\<rceil> = int ?q + 1"
    by (rule ceiling_unique) (use l u in simp_all)
  thus ?thesis unfolding Suc q by simp
qed

lemma floor_ragged:
  assumes W: "0 < (W::nat)" and r: "N mod W \<noteq> 0"
  shows "W * ((N - 1) div W) = N - N mod W"
proof -
  from r obtain m where m: "N = Suc m" by (cases N) auto
  have "Suc m mod W = Suc (m mod W)" using r unfolding m by (simp add: mod_Suc split: if_splits)
  hence "N - N mod W = m - m mod W" unfolding m by simp
  also have "\<dots> = W * (m div W)" by (rule minus_mod_eq_mult_div)
  finally show ?thesis unfolding m by simp
qed

section \<open>The sub-byte path\<close>

lemma record_fields_join3:
  "CHR '','' \<notin> set a \<Longrightarrow> CHR '','' \<notin> set b \<Longrightarrow> CHR '','' \<notin> set c \<Longrightarrow>
   record_fields (join_str '','' [a, b, c]) = [a, b, c]"
  unfolding record_fields_def by (rule split_on_join) simp_all

lemma record_word_sub_byte:
  "record_word (join_str '','' [hex_str w, '''', if l then ''1'' else ''0'']) = w"
proof -
  have "record_fields (join_str '','' [hex_str w, '''', if l then ''1'' else ''0''])
          = [hex_str w, '''', if l then ''1'' else ''0'']"
    by (rule record_fields_join3) (simp_all add: comma_notin_hex_str)
  thus ?thesis by (simp add: record_word_def hex_to_nat_hex_str)
qed

text \<open>
  Claim C10.  For a non-empty byte sequence and a width from 1 to 7 the sub-byte path emits
  \<open>ceil(8 * len / W)\<close> lines; when \<open>8 * len\<close> is not a multiple of \<open>W\<close>, the word of the
  final line is the value of the last \<open>(8 * len) mod W\<close> bits of the flattened bit string
  alone, hence below \<open>2 ^ ((8 * len) mod W)\<close>: the short chunk is not padded.
\<close>

theorem sub_byte_ragged_final_word:
  assumes "S \<noteq> []" and "1 \<le> W" and "W < 8"
  shows "\<exists>ls. encode W S = Inr ls
           \<and> int (length ls) = \<lceil>real (8 * length S) / real W\<rceil>
           \<and> ((8 * length S) mod W \<noteq> 0 \<longrightarrow>
                 length (drop (8 * length S - (8 * length S) mod W) (flatten_bits S))
                   = (8 * length S) mod W
                 \<and> last ls = join_str '',''
                     [hex_str (bin_val (drop (8 * length S - (8 * length S) mod W)
                                          (flatten_bits S))), '''', ''1'']
                 \<and> record_word (last ls)
                     = bin_val (drop (8 * length S - (8 * length S) mod W) (flatten_bits S))
                 \<and> record_word (last ls) < 2 ^ ((8 * length S) mod W))"
proof -
  let ?N = "8 * length S"
  let ?r = "?N mod W"
  let ?tail = "drop (?N - ?r) (flatten_bits S)"
  have W: "0 < W" using assms(2) by simp
  from sub_byte_path_ok[OF W, of S] assms(1)
  obtain ls where ls: "sub_byte_path W S = Inr ls"
    and len: "length ls = (?N + W - 1) div W"
    and lst: "last ls = join_str '',''
             [hex_str (bin_val (drop (W * ((?N - 1) div W)) (flatten_bits S))), '''', ''1'']"
    by blast
  have enc: "encode W S = Inr ls"
    using ls assms(3) by (simp add: encode_def reference_lines_def)
  have cnt: "int (length ls) = \<lceil>real ?N / real W\<rceil>"
    unfolding len by (rule ceil_div_real[OF W])
  have rag: "length ?tail = ?r
             \<and> last ls = join_str '','' [hex_str (bin_val ?tail), '''', ''1'']
             \<and> record_word (last ls) = bin_val ?tail
             \<and> record_word (last ls) < 2 ^ ?r" if r: "?r \<noteq> 0"
  proof -
    have le: "?r \<le> ?N" by (rule mod_less_eq_dividend)
    have tl: "length ?tail = ?r" using le by (simp add: flatten_bits_length)
    have l: "last ls = join_str '','' [hex_str (bin_val ?tail), '''', ''1'']"
      using lst floor_ragged[OF W r] by simp
    have w: "record_word (last ls) = bin_val ?tail"
      unfolding l using record_word_sub_byte[of "bin_val ?tail" True] by simp
    have "bin_val ?tail < 2 ^ length ?tail" by (rule bin_val_bound)
    hence "record_word (last ls) < 2 ^ ?r" unfolding w tl .
    with tl l w show ?thesis by blast
  qed
  from enc cnt rag show ?thesis by blast
qed

theorem sub_byte_ragged_final_word_witness:
  "[0xff :: byte] \<noteq> [] \<and> (1::nat) \<le> 3 \<and> (3::nat) < 8 \<and> (8 * length [0xff :: byte]) mod 3 \<noteq> 0
   \<and> (\<exists>ls. encode 3 [0xff] = Inr ls
         \<and> int (length ls) = \<lceil>real (8 * length [0xff :: byte]) / real (3::nat)\<rceil>
         \<and> last ls = ''3,,1''
         \<and> record_word (last ls) = 3
         \<and> record_word (last ls) < 2 ^ 2)"
proof -
  have e: "encode 3 [0xff] = Inr [''7,,0'', ''7,,0'', ''3,,1'']" by code_simp
  have r: "(8 * length [0xff :: byte]) mod 3 = 2" by simp
  have w: "record_word ''3,,1'' = 3" by code_simp
  from sub_byte_ragged_final_word[of "[0xff]" 3] e r w
  show ?thesis by auto
qed

section \<open>The byte-aligned loop emits the window lines\<close>

lemma window_lines_Nil: "window_lines W [] = []"
  by (subst window_lines.simps) simp

lemma window_lines_final:
  "xs \<noteq> [] \<Longrightarrow> length xs \<le> W div 8 \<Longrightarrow> window_lines W xs = [final_line W xs]"
  by (subst window_lines.simps) simp

lemma window_lines_full:
  "W div 8 < length xs \<Longrightarrow> 0 < W div 8 \<Longrightarrow>
   window_lines W xs = full_line W (take (W div 8) xs) # window_lines W (drop (W div 8) xs)"
  by (subst window_lines.simps) auto

lemma window_cond:
  assumes "0 < n" and "i mod n = k" and "k < n"
  shows "((8 * (i + 1)) mod (8 * n) = 0) = (Suc k = n)"
proof -
  have "(8 * (i + 1)) mod (8 * n) = 8 * ((i + 1) mod n)" by (rule mult_mod_right[symmetric])
  moreover have "((i + 1) mod n = 0) = (Suc k = n)"
    using assms by (auto simp: mod_Suc)
  ultimately show ?thesis by simp
qed

lemma byte_loop_windows:
  assumes n: "0 < n"
  shows "length pend < n \<Longrightarrow> i mod n = length pend \<Longrightarrow> len = i + length rest \<Longrightarrow>
         byte_finish (8 * n) (byte_loop (8 * n) len i rest (map fmt_02x (rev pend)) 0 lines)
           = lines @ window_lines (8 * n) (pend @ rest)"
proof (induction rest arbitrary: i pend lines)
  case Nil
  show ?case
  proof (cases "pend = []")
    case True
    then show ?thesis by (simp add: byte_finish_def window_lines_Nil)
  next
    case False
    with Nil(1) have "window_lines (8 * n) pend = [final_line (8 * n) pend]"
      by (intro window_lines_final) simp_all
    with False show ?thesis
      by (simp add: byte_finish_def final_line_def Let_def)
  qed
next
  case (Cons b rest)
  have cond: "((8 * (i + 1)) mod (8 * n) = 0) = (Suc (length pend) = n)"
    using n Cons.prems(2) Cons.prems(1) by (rule window_cond)
  have tlast: "(int i = int len - 1) = (rest = [])"
    using Cons.prems(3) by auto
  show ?case
  proof (cases "Suc (length pend) = n")
    case full: True
    have lenw: "length (pend @ [b]) = n" using full by simp
    show ?thesis
    proof (cases "rest = []")
      case True
      have "window_lines (8 * n) (pend @ [b]) = [final_line (8 * n) (pend @ [b])]"
        using lenw by (intro window_lines_final) simp_all
      thus ?thesis
        using True full cond tlast
        by (simp add: Let_def byte_finish_def final_line_def)
    next
      case False
      have ih: "byte_finish (8 * n)
                  (byte_loop (8 * n) len (i + 1) rest (map fmt_02x (rev [])) 0
                     (lines @ [full_line (8 * n) (pend @ [b])]))
                = (lines @ [full_line (8 * n) (pend @ [b])]) @ window_lines (8 * n) ([] @ rest)"
      proof (rule Cons.IH)
        show "length ([] :: byte list) < n" using n by simp
        show "(i + 1) mod n = length ([] :: byte list)"
          using full Cons.prems(2) by (simp add: mod_Suc)
        show "len = i + 1 + length rest" using Cons.prems(3) by simp
      qed
      have "window_lines (8 * n) (pend @ b # rest)
              = full_line (8 * n) (take n (pend @ b # rest))
                  # window_lines (8 * n) (drop n (pend @ b # rest))"
        using window_lines_full[of "8 * n" "pend @ b # rest"] n full False
        by (cases rest) simp_all
      moreover have "take n (pend @ b # rest) = pend @ [b]" using full by auto
      moreover have "drop n (pend @ b # rest) = rest" using full by auto
      ultimately have wl: "window_lines (8 * n) (pend @ b # rest)
              = full_line (8 * n) (pend @ [b]) # window_lines (8 * n) rest"
        by simp
      show ?thesis
        using False full cond tlast ih
        by (simp add: Let_def full_line_def wl)
    qed
  next
    case part: False
    hence lt: "length (pend @ [b]) < n" using Cons.prems(1) by simp
    have ih: "byte_finish (8 * n)
                (byte_loop (8 * n) len (i + 1) rest (map fmt_02x (rev (pend @ [b]))) 0 lines)
              = lines @ window_lines (8 * n) ((pend @ [b]) @ rest)"
    proof (rule Cons.IH[OF lt])
      show "(i + 1) mod n = length (pend @ [b])"
        using part Cons.prems(2) by (simp add: mod_Suc)
      show "len = i + 1 + length rest" using Cons.prems(3) by simp
    qed
    show ?thesis
      using part cond ih by (simp add: Let_def)
  qed
qed

lemma byte_path_windows:
  assumes "0 < W" and "W mod 8 = 0"
  shows "byte_path W (length S) S = window_lines W S"
proof -
  from assms obtain n where W: "W = 8 * n" and n: "0 < n" by (auto simp: mod_eq_0_iff_dvd)
  have "byte_finish (8 * n) (byte_loop (8 * n) (length S) 0 S (map fmt_02x (rev [])) 0 [])
          = [] @ window_lines (8 * n) ([] @ S)"
    by (rule byte_loop_windows[OF n]) (use n in simp_all)
  thus ?thesis by (simp add: byte_path_def W)
qed

lemma encode_windows:
  assumes "0 < W" and "W mod 8 = 0"
  shows "encode W S = Inr (window_lines W S)"
proof -
  have "8 \<le> W" using assms by presburger
  thus ?thesis using byte_path_windows[OF assms] by (simp add: encode_def reference_lines_def)
qed

section \<open>Reading the emitted lines\<close>

lemma hex_str_small: "n < 16 \<Longrightarrow> hex_str n = [hex_digit n]"
  by (subst hex_str.simps) simp

lemma hex_str_two: "16 \<le> n \<Longrightarrow> n < 256 \<Longrightarrow> hex_str n = [hex_digit (n div 16), hex_digit (n mod 16)]"
proof -
  assume a: "16 \<le> n" "n < 256"
  hence "n div 16 < 16" by simp
  hence "hex_str (n div 16) = [hex_digit (n div 16)]" by (rule hex_str_small)
  thus ?thesis using a by (subst hex_str.simps) simp
qed

lemma fmt_02x_digits:
  "fmt_02x b = [hex_digit (unat b div 16), hex_digit (unat b mod 16)]"
proof (cases "unat b < 16")
  case True
  have "hex_digit 0 = CHR ''0''" by (simp add: hex_digit_def hexdigits_def)
  thus ?thesis using True by (simp add: fmt_02x_def zero_pad_def hex_str_small)
next
  case False
  hence "hex_str (unat b) = [hex_digit (unat b div 16), hex_digit (unat b mod 16)]"
    using unat_byte_less[of b] by (intro hex_str_two) simp_all
  thus ?thesis by (simp add: fmt_02x_def zero_pad_def)
qed

lemma hex_pairs_fmt_02x: "hex_pairs (fmt_02x b @ rest) = b # hex_pairs rest"
proof -
  have d: "unat b div 16 < 16" using unat_byte_less[of b] by simp
  have "16 * hex_val (hex_digit (unat b div 16)) + hex_val (hex_digit (unat b mod 16)) = unat b"
    using d by (simp add: hex_val_hex_digit)
  thus ?thesis by (simp add: fmt_02x_digits)
qed

lemma hex_pairs_concat: "hex_pairs (concat (map fmt_02x xs)) = xs"
  by (induction xs) (simp_all add: hex_pairs_fmt_02x)

lemma hex_pairs_zeros:
  "hex_pairs (concat (replicate k ''00'') @ rest) = replicate k 0 @ hex_pairs rest"
proof (induction k)
  case 0
  show ?case by simp
next
  case (Suc k)
  have "hex_val (CHR ''0'') = 0" by (simp add: hex_val_def hexdigits_def)
  with Suc show ?case by simp
qed

lemma comma_notin_fmt_02x: "CHR '','' \<notin> set (fmt_02x b)"
  unfolding fmt_02x_def by (rule comma_notin_zero_pad) (rule comma_notin_hex_str)

lemma comma_notin_fmt_prec_x: "CHR '','' \<notin> set (fmt_prec_x p n)"
  unfolding fmt_prec_x_def by (rule comma_notin_zero_pad) (rule comma_notin_hex_str)

lemma comma_notin_word: "CHR '','' \<notin> set (concat (map fmt_02x xs))"
  by (induction xs) (simp_all add: comma_notin_fmt_02x)

lemma comma_notin_padding: "CHR '','' \<notin> set (concat (replicate k ''00''))"
  by (induction k) simp_all

lemma record_fields_full_line:
  "record_fields (full_line W win)
     = [concat (map fmt_02x (rev win)), fmt_prec_x (W div 8 div 4) 0, ''0'']"
  unfolding full_line_def
  by (rule record_fields_join3)
     (simp_all add: comma_notin_fmt_02x comma_notin_fmt_prec_x)

lemma record_fields_final_line:
  "record_fields (final_line W win)
     = [concat (replicate (W div 8 - length win) ''00'' @ map fmt_02x (rev win)),
        fmt_prec_x (W div 8 div 4) (2 ^ length win - 1), ''1'']"
  unfolding final_line_def
  by (rule record_fields_join3)
     (simp_all add: comma_notin_fmt_02x comma_notin_fmt_prec_x)

lemma record_last_full_line: "record_last (full_line W win) = False"
  by (simp add: record_last_def record_fields_full_line)

lemma record_last_final_line: "record_last (final_line W win) = True"
  by (simp add: record_last_def record_fields_final_line)

lemma record_keep_mask_full_line: "record_keep_mask (full_line W win) = 0"
  by (simp add: record_keep_mask_def record_keep_def record_fields_full_line fmt_prec_x_def
                hex_to_nat_zero_pad)

lemma record_keep_mask_final_line:
  "record_keep_mask (final_line W win) = 2 ^ length win - 1"
  by (simp add: record_keep_mask_def record_keep_def record_fields_final_line fmt_prec_x_def
                hex_to_nat_zero_pad)

lemma record_lanes_full_line: "record_lanes (full_line W win) = win"
  by (simp add: record_lanes_def record_fields_full_line hex_pairs_concat)

lemma record_lanes_final_line:
  "record_lanes (final_line W win) = win @ replicate (W div 8 - length win) 0"
  using hex_pairs_zeros[of "W div 8 - length win" "concat (map fmt_02x (rev win))"]
  by (simp add: record_lanes_def record_fields_final_line hex_pairs_concat)

lemma bit_low_mask: "bit (2 ^ k - 1 :: nat) i = (i < k)"
  using bit_mask_iff[of k i, where 'a=nat] by (simp add: mask_eq_exp_minus_1)

lemma bit_low_mask_fun: "bit (2 ^ k - Suc 0 :: nat) = (\<lambda>i. i < k)"
  using bit_low_mask[of k] by (intro ext) simp

lemma filter_below: "filter (\<lambda>i. i < k) [0..<k + m] = [0..<k]"
  by (induction m) simp_all

lemma decode_final_final_line: "decode_final (final_line W win) = win"
proof -
  let ?pad = "replicate (W div 8 - length win) (0 :: byte)"
  have "filter (\<lambda>i. i < length win) [0..<length win + length ?pad] = [0..<length win]"
    by (rule filter_below)
  moreover have "map (\<lambda>i. (win @ ?pad) ! i) [0..<length win] = win"
    by (rule nth_equalityI) (simp_all add: nth_append)
  ultimately show ?thesis
    by (simp add: decode_final_def Let_def record_lanes_final_line record_keep_mask_final_line
                  bit_low_mask_fun)
qed

lemma window_lines_nonempty: "xs \<noteq> [] \<Longrightarrow> window_lines W xs \<noteq> []"
  by (subst window_lines.simps) simp

lemma window_lines_length:
  "0 < W div 8 \<Longrightarrow> length (window_lines W xs) = (length xs + W div 8 - 1) div (W div 8)"
proof (induction W xs rule: window_lines.induct)
  case (1 W xs)
  let ?n = "W div 8"
  show ?case
  proof (cases "xs = []")
    case True
    then show ?thesis using 1(2) by (simp add: window_lines_Nil)
  next
    case ne: False
    show ?thesis
    proof (cases "length xs \<le> ?n")
      case True
      have "0 < length xs" using ne by simp
      from ceil_small[OF this True] window_lines_final[OF ne True] show ?thesis by simp
    next
      case False
      hence gt: "?n < length xs" by simp
      have c: "\<not> (?n = 0 \<or> length xs \<le> ?n)" using False 1(2) by simp
      from 1(1)[OF ne c 1(2)]
      have "length (window_lines W (drop ?n xs)) = (length xs - ?n + ?n - 1) div ?n" by simp
      with window_lines_full[OF gt 1(2)] ceil_step[OF 1(2) gt] show ?thesis by simp
    qed
  qed
qed

lemma replicate_pred_snoc:
  "ls \<noteq> [] \<Longrightarrow> x # replicate (length ls - 1) x @ [y] = replicate (length (l # ls) - 1) x @ [y]"
  by (cases ls) simp_all

lemma window_lines_last_flags:
  "0 < W div 8 \<Longrightarrow> xs \<noteq> [] \<Longrightarrow>
   map record_last (window_lines W xs)
     = replicate (length (window_lines W xs) - 1) False @ [True]"
proof (induction W xs rule: window_lines.induct)
  case (1 W xs)
  let ?n = "W div 8"
  show ?case
  proof (cases "length xs \<le> ?n")
    case True
    from window_lines_final[OF 1(3) True] show ?thesis
      by (simp add: record_last_final_line)
  next
    case False
    hence gt: "?n < length xs" by simp
    have c: "\<not> (?n = 0 \<or> length xs \<le> ?n)" using False 1(2) by simp
    have dne: "drop ?n xs \<noteq> []" using gt by simp
    let ?rest = "window_lines W (drop ?n xs)"
    have ih: "map record_last ?rest = replicate (length ?rest - 1) False @ [True]"
      by (rule 1(1)[OF 1(3) c 1(2) dne])
    have rne: "?rest \<noteq> []" using dne by (rule window_lines_nonempty)
    have wl: "window_lines W xs = full_line W (take ?n xs) # ?rest"
      by (rule window_lines_full[OF gt 1(2)])
    show ?thesis
      unfolding wl using ih replicate_pred_snoc[OF rne, of False True]
      by (simp add: record_last_full_line)
  qed
qed

lemma window_lines_keep_masks:
  "0 < W div 8 \<Longrightarrow> xs \<noteq> [] \<Longrightarrow>
   map record_keep_mask (window_lines W xs)
     = replicate (length (window_lines W xs) - 1) 0
       @ [2 ^ (if length xs mod (W div 8) = 0 then W div 8 else length xs mod (W div 8)) - 1]"
proof (induction W xs rule: window_lines.induct)
  case (1 W xs)
  let ?n = "W div 8"
  show ?case
  proof (cases "length xs \<le> ?n")
    case True
    have "(if length xs mod ?n = 0 then ?n else length xs mod ?n) = length xs"
      using True 1(3) by (cases "length xs = ?n") simp_all
    with window_lines_final[OF 1(3) True] show ?thesis
      by (simp add: record_keep_mask_final_line)
  next
    case False
    hence gt: "?n < length xs" by simp
    have c: "\<not> (?n = 0 \<or> length xs \<le> ?n)" using False 1(2) by simp
    have dne: "drop ?n xs \<noteq> []" using gt by simp
    let ?rest = "window_lines W (drop ?n xs)"
    let ?k = "if length xs mod ?n = 0 then ?n else length xs mod ?n"
    have md: "length (drop ?n xs) mod ?n = length xs mod ?n"
      using gt by (simp add: le_mod_geq)
    have "map record_keep_mask ?rest = replicate (length ?rest - 1) 0
            @ [2 ^ (if length (drop ?n xs) mod ?n = 0 then ?n else length (drop ?n xs) mod ?n) - 1]"
      by (rule 1(1)[OF 1(3) c 1(2) dne])
    hence ih: "map record_keep_mask ?rest = replicate (length ?rest - 1) 0 @ [2 ^ ?k - 1]"
      by (simp only: md)
    have rne: "?rest \<noteq> []" using dne by (rule window_lines_nonempty)
    have wl: "window_lines W xs = full_line W (take ?n xs) # ?rest"
      by (rule window_lines_full[OF gt 1(2)])
    show ?thesis
      unfolding wl using ih replicate_pred_snoc[OF rne, of 0 "2 ^ ?k - 1"]
      by (simp add: record_keep_mask_full_line)
  qed
qed

lemma decode_reference_log_Cons:
  "ls \<noteq> [] \<Longrightarrow> decode_reference_log (l # ls) = record_lanes l @ decode_reference_log ls"
  by (simp add: decode_reference_log_def)

lemma window_lines_decode:
  "0 < W div 8 \<Longrightarrow> decode_reference_log (window_lines W xs) = xs"
proof (induction W xs rule: window_lines.induct)
  case (1 W xs)
  let ?n = "W div 8"
  show ?case
  proof (cases "xs = []")
    case True
    then show ?thesis by (simp add: window_lines_Nil decode_reference_log_def)
  next
    case ne: False
    show ?thesis
    proof (cases "length xs \<le> ?n")
      case True
      from window_lines_final[OF ne True] show ?thesis
        by (simp add: decode_reference_log_def decode_final_final_line)
    next
      case False
      hence gt: "?n < length xs" by simp
      have c: "\<not> (?n = 0 \<or> length xs \<le> ?n)" using False 1(2) by simp
      have dne: "drop ?n xs \<noteq> []" using gt by simp
      let ?rest = "window_lines W (drop ?n xs)"
      have ih: "decode_reference_log ?rest = drop ?n xs" by (rule 1(1)[OF ne c 1(2)])
      have rne: "?rest \<noteq> []" using dne by (rule window_lines_nonempty)
      have wl: "window_lines W xs = full_line W (take ?n xs) # ?rest"
        by (rule window_lines_full[OF gt 1(2)])
      show ?thesis
        unfolding wl decode_reference_log_Cons[OF rne] ih
        by (simp add: record_lanes_full_line)
    qed
  qed
qed

lemma byte_aligned_div: "0 < W \<Longrightarrow> W mod 8 = 0 \<Longrightarrow> 0 < W div (8::nat)"
  by presburger

lemma byte_aligned_ceil:
  assumes "0 < W" and "W mod 8 = 0"
  shows "int ((n + W div 8 - 1) div (W div 8)) = \<lceil>real (n * 8) / real W\<rceil>"
proof -
  from assms obtain m where W: "W = 8 * m" and m: "0 < m" by (auto simp: mod_eq_0_iff_dvd)
  have "real (n * 8) / real W = real n / real m" using m by (simp add: W)
  thus ?thesis using ceil_div_real[OF m, of n] by (simp add: W)
qed

section \<open>The byte-aligned path: counts, round trip, keep masks\<close>

text \<open>
  Claim C6.  For a non-empty byte sequence and a byte-aligned width the codec emits
  \<open>ceil(len * 8 / W)\<close> records; the final record, and no other, has the last flag.
\<close>

theorem byte_aligned_record_count:
  assumes "S \<noteq> []" and "0 < W" and "W mod 8 = 0"
  shows "\<exists>ls. encode W S = Inr ls
           \<and> int (length ls) = \<lceil>real (length S * 8) / real W\<rceil>
           \<and> map record_last ls = replicate (length ls - 1) False @ [True]"
proof -
  have n: "0 < W div 8" using assms(2,3) by (rule byte_aligned_div)
  have "int (length (window_lines W S)) = \<lceil>real (length S * 8) / real W\<rceil>"
    unfolding window_lines_length[OF n] by (rule byte_aligned_ceil[OF assms(2,3)])
  moreover have "map record_last (window_lines W S)
                   = replicate (length (window_lines W S) - 1) False @ [True]"
    using n assms(1) by (rule window_lines_last_flags)
  ultimately show ?thesis using encode_windows[OF assms(2,3), of S] by blast
qed

theorem byte_aligned_record_count_witness:
  "[0x01, 0x02, 0x03 :: byte] \<noteq> [] \<and> (0::nat) < 16 \<and> (16::nat) mod 8 = 0
   \<and> (\<exists>ls. encode 16 [0x01, 0x02, 0x03] = Inr ls
         \<and> int (length ls) = \<lceil>real (length [0x01, 0x02, 0x03 :: byte] * 8) / real (16::nat)\<rceil>
         \<and> length ls = 2
         \<and> map record_last ls = [False, True])"
proof -
  have e: "encode 16 [0x01, 0x02, 0x03] = Inr [''0201,0,0'', ''0003,1,1'']" by code_simp
  from byte_aligned_record_count[of "[0x01, 0x02, 0x03]" 16] e
  show ?thesis by auto
qed

text \<open>
  Claim C5.  For a non-empty byte sequence and a byte-aligned width, decoding the emitted
  lines (the lanes of each word in arrival order, the final record trimmed by its keep
  mask) gives the byte sequence back.
\<close>

theorem byte_aligned_round_trip:
  assumes "S \<noteq> []" and "0 < W" and "W mod 8 = 0"
  shows "\<exists>ls. encode W S = Inr ls \<and> decode_reference_log ls = S"
proof -
  have n: "0 < W div 8" using assms(2,3) by (rule byte_aligned_div)
  from window_lines_decode[OF n, of S] encode_windows[OF assms(2,3), of S]
  show ?thesis by blast
qed

theorem byte_aligned_round_trip_witness:
  "[0x01, 0x02, 0xfe :: byte] \<noteq> [] \<and> (0::nat) < 16 \<and> (16::nat) mod 8 = 0
   \<and> encode 16 [0x01, 0x02, 0xfe] = Inr [''0201,0,0'', ''00fe,1,1'']
   \<and> decode_reference_log [''0201,0,0'', ''00fe,1,1''] = [0x01, 0x02, 0xfe]"
proof -
  have e: "encode 16 [0x01, 0x02, 0xfe] = Inr [''0201,0,0'', ''00fe,1,1'']" by code_simp
  from byte_aligned_round_trip[of "[0x01, 0x02, 0xfe]" 16] e
  show ?thesis by auto
qed

text \<open>
  Claim C3, as the code has it.  For a non-empty byte sequence and a byte-aligned width,
  every record but the final one has keep mask 0, and the final record has keep mask
  \<open>(1 << k) - 1\<close> for the \<open>k\<close> bytes of the final window (\<open>k = W / 8\<close> when that window is
  complete).  The bytes 1, 2 at width 8 give the reference file \<open>01,0,0\<close>, \<open>02,1,1\<close>.
\<close>

theorem byte_aligned_keep_masks:
  assumes "S \<noteq> []" and "8 \<le> W" and "W mod 8 = 0"
  shows "(\<exists>ls. encode W S = Inr ls
            \<and> map record_keep_mask ls
                = replicate (length ls - 1) 0
                  @ [2 ^ (if length S mod (W div 8) = 0 then W div 8
                          else length S mod (W div 8)) - 1])
         \<and> map_sum id reference_text (encode 8 [0x01, 0x02])
             = Inr ''01,0,0\<newline>02,1,1\<newline>''"
proof -
  have W: "0 < W" using assms(2) by simp
  have n: "0 < W div 8" using W assms(3) by (rule byte_aligned_div)
  from window_lines_keep_masks[OF n assms(1)] encode_windows[OF W assms(3), of S]
  have "\<exists>ls. encode W S = Inr ls
            \<and> map record_keep_mask ls
                = replicate (length ls - 1) 0
                  @ [2 ^ (if length S mod (W div 8) = 0 then W div 8
                          else length S mod (W div 8)) - 1]"
    by blast
  moreover have "map_sum id reference_text (encode 8 [0x01, 0x02])
             = Inr ''01,0,0\<newline>02,1,1\<newline>''"
    by code_simp
  ultimately show ?thesis by blast
qed

theorem byte_aligned_keep_masks_witness:
  "[0x01, 0x02, 0x03 :: byte] \<noteq> [] \<and> (8::nat) \<le> 8 \<and> (8::nat) mod 8 = 0
   \<and> encode 8 [0x01, 0x02, 0x03] = Inr [''01,0,0'', ''02,0,0'', ''03,1,1'']
   \<and> map record_keep_mask [''01,0,0'', ''02,0,0'', ''03,1,1''] = [0, 0, 1]"
proof -
  have e: "encode 8 [0x01, 0x02, 0x03] = Inr [''01,0,0'', ''02,0,0'', ''03,1,1'']" by code_simp
  from byte_aligned_keep_masks[of "[0x01, 0x02, 0x03]" 8] e
  show ?thesis by (auto simp: numeral_3_eq_3)
qed

theorem keep_mask_counterexample:
  "encode 8 [0x01, 0x02] = Inr [''01,0,0'', ''02,1,1'']
   \<and> record_keep_mask ''01,0,0'' \<noteq> 2 ^ (8 div 8) - 1
   \<and> reference_text [''01,0,0'', ''02,1,1''] \<noteq> ''01,1,0\<newline>02,1,1\<newline>''"
  by code_simp

section \<open>Further properties of the builder and the codec\<close>

text \<open>
  The clock and rate sweep of the dual-clock FIFO bench: 2 * 2 * 4 = 16 configurations with
  pairwise distinct names.
\<close>

lemma async_fifo_matrix:
  "length (addAsyncFifoTests seed) = 16 \<and> distinct (map name (addAsyncFifoTests seed))"
  by code_simp

text \<open>
  The width-converter configurations when both sets are iterated in ascending order: the
  baseline and the 14 strictly narrowing pairs.
\<close>

lemma width_converter_sorted_names:
  "map name (addAxiWidthConverterTests sorted_list_of_set seed)
     = [''same_widths'',
        ''input_data_width=8,output_data_width=1'', ''input_data_width=8,output_data_width=3'',
        ''input_data_width=24,output_data_width=1'', ''input_data_width=24,output_data_width=3'',
        ''input_data_width=24,output_data_width=8'',
        ''input_data_width=32,output_data_width=1'', ''input_data_width=32,output_data_width=3'',
        ''input_data_width=32,output_data_width=8'', ''input_data_width=32,output_data_width=24'',
        ''input_data_width=128,output_data_width=1'', ''input_data_width=128,output_data_width=3'',
        ''input_data_width=128,output_data_width=8'', ''input_data_width=128,output_data_width=24'',
        ''input_data_width=128,output_data_width=32'']"
  by code_simp

lemma sub_byte_path_zero_width: "S \<noteq> [] \<Longrightarrow> sub_byte_path 0 S = Inl ValueError"
proof -
  assume "S \<noteq> []"
  hence ne: "flatten_bits S \<noteq> []" using flatten_bits_length[of S] by (cases S) auto
  have "slice_loop 0 (flatten_bits S) [] = Inl ValueError"
    using ne by (subst slice_loop.simps) (simp add: int_base2_def)
  thus ?thesis by (simp add: sub_byte_path_def Let_def flatten_bits_length)
qed

text \<open>
  With \<open>data_width = 0\<close> and at least one byte the function raises \<open>ValueError\<close> (from
  \<open>int("", 2)\<close>) after it has written the raw file, and writes no reference file.
\<close>

lemma zero_width_raises:
  assumes "0 < len"
  shows "generateAxiFileReaderTestFile test_file reference_file 0 len rand fs
           = Inl (ValueError, fs(test_file \<mapsto> pack_bytes (map rand [0..<len])))"
proof -
  have "map rand [0..<len] \<noteq> []" using assms by simp
  hence "reference_lines 0 len (map rand [0..<len]) = Inl ValueError"
    by (simp add: reference_lines_def sub_byte_path_zero_width)
  thus ?thesis by (simp add: generateAxiFileReaderTestFile_def Let_def)
qed

lemma zero_width_raises_witness:
  "(0::nat) < 1
   \<and> generateAxiFileReaderTestFile ''in.bin'' ''ref.bin'' 0 1 (\<lambda>k. 0xff) Map.empty
       = Inl (ValueError, [''in.bin'' \<mapsto> pack_bytes [0xff]])"
  using zero_width_raises[of 1 "''in.bin''" "''ref.bin''" "\<lambda>k. 0xff" Map.empty] by simp

end
